theory Spec2Isabelle
  imports Main "HOL-Library.AList" "HOL-Library.Char_ord" "HOL-Library.List_Lexorder"
    "HOL-Library.Product_Lexorder"
begin

unbundle bit_operations_syntax

section \<open>Shared input model\<close>

text \<open>
  A text file is the list of its lines, header line first. Every program discards the
  header with one \<^verbatim>\<open>getline\<close> and then reads line by line; \<open>tl\<close> is that discard (on an
  empty file the discard fails and the read loop does not run).

  \<^verbatim>\<open>while (getline(ss, next, '\t')) record.push_back(next);\<close> cuts a line at every tab.
  A read that meets the end of the line without having taken any character fails, so a
  line ending in a tab has no empty last field and the empty line has no field at all.
\<close>

fun getline_fields :: "char \<Rightarrow> string \<Rightarrow> string \<Rightarrow> string list" where
  "getline_fields d acc [] = (if acc = [] then [] else [rev acc])"
| "getline_fields d acc (c # cs) =
     (if c = d then rev acc # getline_fields d [] cs else getline_fields d (c # acc) cs)"

definition tab :: char where
  "tab = CHR 0x09"

definition record_of :: "string \<Rightarrow> string list" where
  "record_of s = getline_fields tab [] s"

text \<open>The other way round, for writing datasets down: a line from its fields.\<close>

fun tsv_line :: "string list \<Rightarrow> string" where
  "tsv_line [] = []"
| "tsv_line [f] = f"
| "tsv_line (f # fs) = f @ [tab] @ tsv_line fs"

definition header :: string where
  "header = tsv_line [''Actor'', ''Movie'', ''Year'']"

text \<open>
  Ways in which a run of the C++ code ends other than by returning: the two exceptions
  of \<^verbatim>\<open>std::stoi\<close>, which no program catches, and two markers of undefined behaviour, a
  null \<^verbatim>\<open>Vertex*\<close> dereferenced and a \<^verbatim>\<open>vector\<close> indexed out of range. A marker is not a
  failure that the program signals: it says that the run has reached undefined
  behaviour, after which the language gives it no meaning (the compiled program may
  stop, or go on with whatever it finds in memory). Nothing is stated about a run from
  there on.
\<close>

datatype error = InvalidArgument | OutOfRange | NullPointer | IndexOutOfBounds

definition is_space :: "char \<Rightarrow> bool" where
  "is_space c = (c = CHR '' '' \<or> c = CHR 0x09 \<or> c = CHR 0x0A \<or> c = CHR 0x0B
     \<or> c = CHR 0x0C \<or> c = CHR 0x0D)"

definition is_digit :: "char \<Rightarrow> bool" where
  "is_digit c = (CHR ''0'' \<le> c \<and> c \<le> CHR ''9'')"

definition digit_val :: "char \<Rightarrow> int" where
  "digit_val c = int (of_char c) - 48"

definition INT_MAX :: int where
  "INT_MAX = 2147483647"

text \<open>
  \<^verbatim>\<open>std::stoi\<close>: leading white space, an optional sign, then decimal digits; what follows
  the digits is ignored. No digit throws \<^verbatim>\<open>invalid_argument\<close>, a value outside \<^verbatim>\<open>int\<close>
  throws \<^verbatim>\<open>out_of_range\<close>.
\<close>

definition stoi :: "string \<Rightarrow> error + int" where
  "stoi s =
     (let s1 = dropWhile is_space s;
          neg = (s1 \<noteq> [] \<and> hd s1 = CHR ''-'');
          s2 = (if s1 \<noteq> [] \<and> (hd s1 = CHR ''-'' \<or> hd s1 = CHR ''+'') then tl s1 else s1);
          ds = takeWhile is_digit s2;
          v = foldl (\<lambda>a c. 10 * a + digit_val c) 0 ds;
          r = (if neg then - v else v)
      in if ds = [] then Inl InvalidArgument
         else if r < - INT_MAX - 1 \<or> INT_MAX < r then Inl OutOfRange
         else Inr r)"

text \<open>
  An \<^verbatim>\<open>unordered_map\<close> is an association list with one entry per key. The programs never
  depend on the iteration order of a map: they iterate only to create one vertex per
  actor, to reset every vertex, and to set matrix entries to the constant 1.
  \<open>map_of\<close> is \<^verbatim>\<open>find\<close>/\<^verbatim>\<open>count\<close>, \<open>AList.update\<close> is the assignment \<^verbatim>\<open>m[k] = v\<close>, and
  \<open>subscript\<close> is a read through \<^verbatim>\<open>operator[]\<close>, which inserts the default value under a
  key that is absent.
\<close>

definition subscript :: "('k \<times> 'v) list \<Rightarrow> 'k \<Rightarrow> 'v \<Rightarrow> 'v \<times> ('k \<times> 'v) list" where
  "subscript m k d = (case map_of m k of Some v \<Rightarrow> (v, m) | None \<Rightarrow> (d, m @ [(k, d)]))"

section \<open>actorgraph.hpp, actorgraph.cpp\<close>

text \<open>
  The \<^verbatim>\<open>Vertex\<close> class. The field \<^verbatim>\<open>done\<close> is \<open>done_v\<close> here. Distances are C++ \<^verbatim>\<open>int\<close>s;
  they are mathematical integers here, signed overflow (undefined in C++, and out of
  reach for four-digit years) is not modelled.
\<close>

record Vertex =
  dist :: int
  done_v :: bool
  prev_actor :: string
  prev_movie :: string
  name :: string

text \<open>
  The constructor sets the name only; \<^verbatim>\<open>dist\<close> and \<^verbatim>\<open>done\<close> are left uninitialised and
  \<^verbatim>\<open>findPath\<close> writes all four working fields before it reads any.
\<close>

definition new_Vertex :: "string \<Rightarrow> Vertex" where
  "new_Vertex n = \<lparr>dist = 0, done_v = False, prev_actor = [], prev_movie = [], name = n\<rparr>"

text \<open>
  The three maps of an \<^verbatim>\<open>ActorGraph\<close>. A \<^verbatim>\<open>Vertex*\<close> is modelled by the key under which
  \<open>vertices\<close> holds the vertex (every vertex is owned by exactly one entry); a key that
  \<open>vertices\<close> does not hold is the null pointer that \<^verbatim>\<open>operator[]\<close> would insert.
\<close>

record ActorGraph =
  actor_map :: "(string \<times> string list) list"
  movie_map :: "(string \<times> (int \<times> string list)) list"
  vertices :: "(string \<times> Vertex) list"

definition empty_graph :: ActorGraph where
  "empty_graph = \<lparr>actor_map = [], movie_map = [], vertices = []\<rparr>"

text \<open>The body of the read loop of \<^verbatim>\<open>loadFromFile\<close> for one well-formed record.\<close>

definition add_record :: "bool \<Rightarrow> string \<Rightarrow> string \<Rightarrow> int \<Rightarrow> ActorGraph \<Rightarrow> ActorGraph" where
  "add_record use_weighted_edges actor_name movie_title movie_year g =
     (let am1 = (if map_of (actor_map g) actor_name = None
                 then AList.update actor_name [] (actor_map g) else actor_map g);
          am2 = AList.update actor_name (fst (subscript am1 actor_name []) @ [movie_title]) am1;
          mm1 = (if map_of (movie_map g) movie_title = None
                 then AList.update movie_title
                        (if use_weighted_edges then 2018 - movie_year + 1 else 1, [])
                        (movie_map g)
                 else movie_map g);
          p = fst (subscript mm1 movie_title (0, []));
          mm2 = AList.update movie_title (fst p, snd p @ [actor_name]) mm1
      in g\<lparr>actor_map := am2, movie_map := mm2\<rparr>)"

definition init_vertices :: "ActorGraph \<Rightarrow> ActorGraph" where
  "init_vertices g =
     g\<lparr>vertices := fold (\<lambda>p vs. AList.update (fst p) (new_Vertex (fst p)) vs)
                      (actor_map g) (vertices g)\<rparr>"

text \<open>
  The read loop. A record whose field count is not 3 returns \<^verbatim>\<open>false\<close> at once, before
  the vertices are created and with the maps as the earlier records left them. The file
  is one that opens and is read to its end: the two checks of the stream state are not
  modelled, and neither is what the programs print to standard output.
\<close>

fun load_loop :: "bool \<Rightarrow> string list \<Rightarrow> ActorGraph \<Rightarrow> error + bool \<times> ActorGraph" where
  "load_loop w [] g = Inr (True, init_vertices g)"
| "load_loop w (s # rest) g =
     (let record = record_of s
      in if length record \<noteq> 3 then Inr (False, g)
         else (case stoi (record ! 2) of
                 Inl e \<Rightarrow> Inl e
               | Inr movie_year \<Rightarrow>
                   load_loop w rest
                     (add_record w (record ! 0) (record ! 1 @ ''#@'' @ record ! 2) movie_year g)))"

definition loadFromFile :: "string list \<Rightarrow> bool \<Rightarrow> ActorGraph \<Rightarrow> error + bool \<times> ActorGraph" where
  "loadFromFile in_file use_weighted_edges g = load_loop use_weighted_edges (tl in_file) g"

subsection \<open>The priority queue of \<^verbatim>\<open>findPath\<close>\<close>

text \<open>
  \<^verbatim>\<open>priority_queue<Vertex*, vector<Vertex*>, vertexComp>\<close> is a binary heap in a vector,
  here as the standard library of g++ (the compiler of the Makefile) implements it:
  \<^verbatim>\<open>push\<close> appends and sifts the new entry up (\<^verbatim>\<open>__push_heap\<close>); \<^verbatim>\<open>pop\<close> moves the last
  entry out, lets the hole at the root sink to a leaf along the preferred children
  (\<^verbatim>\<open>__adjust_heap\<close>) and sifts the moved entry up from there. The comparator is called
  with the vertices as they are at that moment.
\<close>

function push_heap_loop :: "('a \<Rightarrow> 'a \<Rightarrow> bool) \<Rightarrow> 'a list \<Rightarrow> nat \<Rightarrow> nat \<Rightarrow> 'a \<Rightarrow> 'a list" where
  "push_heap_loop cmp xs holeIndex topIndex v =
     (if holeIndex > topIndex \<and> cmp (xs ! ((holeIndex - 1) div 2)) v
      then push_heap_loop cmp (xs[holeIndex := xs ! ((holeIndex - 1) div 2)])
             ((holeIndex - 1) div 2) topIndex v
      else xs[holeIndex := v])"
  by pat_completeness auto
termination
  by (relation "measure (\<lambda>(cmp, xs, holeIndex, topIndex, v). holeIndex)") auto

function adjust_down :: "('a \<Rightarrow> 'a \<Rightarrow> bool) \<Rightarrow> 'a list \<Rightarrow> nat \<Rightarrow> nat \<Rightarrow> 'a list \<times> nat" where
  "adjust_down cmp xs secondChild len =
     (if secondChild < (len - 1) div 2
      then let c = 2 * (secondChild + 1);
               c' = (if cmp (xs ! c) (xs ! (c - 1)) then c - 1 else c)
           in adjust_down cmp (xs[secondChild := xs ! c']) c' len
      else (xs, secondChild))"
  by pat_completeness auto
termination
  by (relation "measure (\<lambda>(cmp, xs, secondChild, len). len - secondChild)") auto

definition adjust_heap :: "('a \<Rightarrow> 'a \<Rightarrow> bool) \<Rightarrow> 'a list \<Rightarrow> nat \<Rightarrow> nat \<Rightarrow> 'a \<Rightarrow> 'a list" where
  "adjust_heap cmp xs holeIndex len v =
     (let (xs1, sc) = adjust_down cmp xs holeIndex len;
          (xs2, hole) = (if even len \<and> sc = (len - 2) div 2
                         then (xs1[sc := xs1 ! (2 * (sc + 1) - 1)], 2 * (sc + 1) - 1)
                         else (xs1, sc))
      in push_heap_loop cmp xs2 hole holeIndex v)"

definition pq_push :: "('a \<Rightarrow> 'a \<Rightarrow> bool) \<Rightarrow> 'a list \<Rightarrow> 'a \<Rightarrow> 'a list" where
  "pq_push cmp c x = push_heap_loop cmp (c @ [x]) (length c) 0 x"

definition pq_pop :: "('a \<Rightarrow> 'a \<Rightarrow> bool) \<Rightarrow> 'a list \<Rightarrow> 'a list" where
  "pq_pop cmp c =
     butlast (if 1 < length c
              then adjust_heap cmp (c[length c - 1 := c ! 0]) 0 (length c - 1)
                     (c ! (length c - 1))
              else c)"

definition deref :: "(string \<times> Vertex) list \<Rightarrow> string \<Rightarrow> Vertex" where
  "deref vs p = the (map_of vs p)"

definition vertexComp :: "(string \<times> Vertex) list \<Rightarrow> string \<Rightarrow> string \<Rightarrow> bool" where
  "vertexComp vs x y =
     (if dist (deref vs x) \<noteq> dist (deref vs y)
      then dist (deref vs x) > dist (deref vs y)
      else prev_actor (deref vs x) < prev_actor (deref vs y))"

subsection \<open>\<^verbatim>\<open>findPath\<close>\<close>

text \<open>
  The inner loop over the cast of one movie. \<open>w\<close> is \<^verbatim>\<open>working\<close>. \<^verbatim>\<open>vertices[adj_actor]\<close>
  of an actor without a vertex is a null pointer, dereferenced by the comparison.
\<close>

fun relax_cast :: "string \<Rightarrow> string \<Rightarrow> int \<Rightarrow> string list \<Rightarrow>
    (string \<times> Vertex) list \<times> string list \<Rightarrow> error + (string \<times> Vertex) list \<times> string list" where
  "relax_cast w movie weight [] (vs, pq) = Inr (vs, pq)"
| "relax_cast w movie weight (adj_actor # rest) (vs, pq) =
     (if adj_actor = name (deref vs w) then relax_cast w movie weight rest (vs, pq)
      else case map_of vs adj_actor of
             None \<Rightarrow> Inl NullPointer
           | Some a \<Rightarrow>
               if dist (deref vs w) + weight < dist a
               then let vs' = AList.update adj_actor
                                (a\<lparr>prev_actor := name (deref vs w), prev_movie := movie,
                                   dist := dist (deref vs w) + weight\<rparr>) vs
                    in relax_cast w movie weight rest (vs', pq_push (vertexComp vs') pq adj_actor)
               else relax_cast w movie weight rest (vs, pq))"

text \<open>The loop over the movies of \<^verbatim>\<open>working\<close>; \<^verbatim>\<open>movie_map[movie]\<close> is read twice.\<close>

fun relax_movies :: "string \<Rightarrow> string list \<Rightarrow>
    (string \<times> int \<times> string list) list \<times> (string \<times> Vertex) list \<times> string list \<Rightarrow>
    error + (string \<times> int \<times> string list) list \<times> (string \<times> Vertex) list \<times> string list" where
  "relax_movies w [] st = Inr st"
| "relax_movies w (movie # rest) (mm, vs, pq) =
     (let r1 = subscript mm movie (0, []);
          weight = fst (fst r1);
          r2 = subscript (snd r1) movie (0, [])
      in case relax_cast w movie weight (snd (fst r2)) (vs, pq) of
           Inl e \<Rightarrow> Inl e
         | Inr (vs', pq') \<Rightarrow> relax_movies w rest (snd r2, vs', pq'))"

text \<open>
  The \<^verbatim>\<open>while (pq.size())\<close> loop. The state is the three maps, the queue and \<^verbatim>\<open>working\<close>;
  the result is the state at loop exit. The queue only ever holds pointers to vertices,
  so the \<open>None\<close> branch is never taken; it makes the function total.
\<close>

function dijkstra :: "string \<Rightarrow>
    (string \<times> string list) list \<times> (string \<times> int \<times> string list) list \<times>
    (string \<times> Vertex) list \<times> string list \<times> string \<Rightarrow>
    error + (string \<times> string list) list \<times> (string \<times> int \<times> string list) list \<times>
    (string \<times> Vertex) list \<times> string" where
  "dijkstra end_name (am, mm, vs, pq, working) =
     (if pq = [] then Inr (am, mm, vs, working)
      else case map_of vs (hd pq) of
             None \<Rightarrow> Inl NullPointer
           | Some v \<Rightarrow>
               if name v = end_name then Inr (am, mm, vs, hd pq)
               else if done_v v
               then dijkstra end_name (am, mm, vs, pq_pop (vertexComp vs) pq, hd pq)
               else (case relax_movies (hd pq) (fst (subscript am (name v) []))
                           (mm, AList.update (hd pq) (v\<lparr>done_v := True\<rparr>) vs,
                            pq_pop (vertexComp vs) pq) of
                      Inl e \<Rightarrow> Inl e
                    | Inr (mm', vs', pq') \<Rightarrow>
                        dijkstra end_name
                          (snd (subscript am (name v) []), mm', vs', pq', hd pq)))"
  by pat_completeness auto

text \<open>
  The walk back along \<^verbatim>\<open>prev_actor\<close>, pushing onto the stack (the head of the list is
  its top). Nothing in the code bounds the walk: \<open>None\<close> is a walk that never ends.
\<close>

partial_function (option) walk_back :: "(string \<times> Vertex) list \<Rightarrow> string \<Rightarrow> string list \<Rightarrow>
    (error + string list) option" where
  "walk_back vs working st =
     (case map_of vs working of
        None \<Rightarrow> Some (Inl NullPointer)
      | Some v \<Rightarrow>
          if prev_actor v \<noteq> []
          then walk_back vs (prev_actor v) (prev_movie v # name v # st)
          else Some (Inr (name v # st)))"

declare walk_back.simps [code]

text \<open>The write loop; the stack holds at least the one name pushed after the walk.\<close>

fun write_path :: "string list \<Rightarrow> string" where
  "write_path (a # m # rest) = ''('' @ a @ '')--['' @ m @ '']-->'' @ write_path rest"
| "write_path [a] = ''('' @ a @ '')''"

definition reset_vertex :: "Vertex \<Rightarrow> Vertex" where
  "reset_vertex v = v\<lparr>dist := INT_MAX, done_v := False, prev_actor := [], prev_movie := []\<rparr>"

text \<open>
  \<^verbatim>\<open>findPath\<close> returns what it wrote to \<^verbatim>\<open>out_file\<close> and the graph as it left it.
  \<^verbatim>\<open>vertices[start_name]\<close> of a name without a vertex is a null pointer, dereferenced by
  \<^verbatim>\<open>working->dist = 0\<close>. The name \<^verbatim>\<open>end_name\<close> is only ever compared with.
\<close>

definition findPath :: "ActorGraph \<Rightarrow> string \<Rightarrow> string \<Rightarrow> (error + string \<times> ActorGraph) option" where
  "findPath g start_name end_name =
     (let vs0 = map (\<lambda>p. (fst p, reset_vertex (snd p))) (vertices g)
      in case map_of vs0 start_name of
           None \<Rightarrow> Some (Inl NullPointer)
         | Some s \<Rightarrow>
             let vs1 = AList.update start_name (s\<lparr>dist := 0\<rparr>) vs0
             in (case dijkstra end_name
                       (actor_map g, movie_map g, vs1, pq_push (vertexComp vs1) [] start_name,
                        start_name) of
                  Inl e \<Rightarrow> Some (Inl e)
                | Inr (am, mm, vs, working) \<Rightarrow>
                    (case walk_back vs working [] of
                       None \<Rightarrow> None
                     | Some (Inl e) \<Rightarrow> Some (Inl e)
                     | Some (Inr st) \<Rightarrow>
                         Some (Inr (write_path st,
                                    \<lparr>actor_map = am, movie_map = mm, vertices = vs\<rparr>)))))"

section \<open>pathfindermain.cpp\<close>

text \<open>
  The loop of \<^verbatim>\<open>main\<close> over the lines of the pairs file: every pair is a query on the one
  graph object, and a newline follows what \<^verbatim>\<open>findPath\<close> wrote. \<^verbatim>\<open>name_pairs[0]\<close> and
  \<^verbatim>\<open>name_pairs[1]\<close> of a line of fewer than two fields read out of range.
\<close>

fun pairs_loop :: "string list \<Rightarrow> string \<times> ActorGraph \<Rightarrow> (error + string \<times> ActorGraph) option" where
  "pairs_loop [] s = Some (Inr s)"
| "pairs_loop (line # rest) s =
     (if length (record_of line) < 2 then Some (Inl IndexOutOfBounds)
      else (case findPath (snd s) (record_of line ! 0) (record_of line ! 1) of
              None \<Rightarrow> None
            | Some (Inl e) \<Rightarrow> Some (Inl e)
            | Some (Inr r) \<Rightarrow> pairs_loop rest (fst s @ fst r @ [CHR 0x0A], snd r)))"

definition paths_header :: string where
  "paths_header = ''(actor)--[movie#@year]-->(actor)--...'' @ [CHR 0x0A]"


section \<open>predictormain.cpp\<close>

text \<open>
  The globals of the predictor. Actor ids are \<^verbatim>\<open>int\<close>s that only ever hold sizes of
  \<^verbatim>\<open>int_to_name\<close>; they are naturals here.
\<close>

record Structures =
  name_to_int :: "(string \<times> nat) list"
  int_to_name :: "string list"
  actors :: "string list"
  graph :: "int list list"

text \<open>
  The read loop of \<^verbatim>\<open>BuildStructures\<close>, the same text in the predictor and in the
  popularity finder. There is no check of the field count: fields after the third are
  ignored, and \<^verbatim>\<open>record[0]\<close>, \<^verbatim>\<open>record[1]\<close> and \<^verbatim>\<open>record[2]\<close> of a record of fewer than
  three fields read out of range. That read is undefined behaviour, marked by
  \<open>IndexOutOfBounds\<close>; the model follows the code on records of three or more fields
  and leaves open what the compiled program does after the read. The movie key is the
  title with the year appended to it.
\<close>

fun read_tsv :: "string list \<Rightarrow>
    (string \<times> nat) list \<times> string list \<times> (string \<times> string list) list \<Rightarrow>
    error + (string \<times> nat) list \<times> string list \<times> (string \<times> string list) list" where
  "read_tsv [] st = Inr st"
| "read_tsv (line # rest) (n2i, i2n, movie_to_actor) =
     (let record = record_of line
      in if length record < 3 then Inl IndexOutOfBounds
         else (let actor_name = record ! 0;
                   movie_title = record ! 1 @ record ! 2;
                   n2i' = (if map_of n2i actor_name = None
                           then AList.update actor_name (length i2n) n2i else n2i);
                   i2n' = (if map_of n2i actor_name = None then i2n @ [actor_name] else i2n);
                   m1 = (if map_of movie_to_actor movie_title = None
                         then AList.update movie_title [] movie_to_actor else movie_to_actor);
                   m2 = AList.update movie_title
                          (fst (subscript m1 movie_title []) @ [actor_name]) m1
               in read_tsv rest (n2i', i2n', m2)))"

text \<open>
  A read \<^verbatim>\<open>name_to_int[x]\<close>. For a name that is absent \<^verbatim>\<open>operator[]\<close> inserts the id 0 and
  yields it; the inserted entry changes no later read, so the map is not passed on.
\<close>

definition id_of :: "(string \<times> nat) list \<Rightarrow> string \<Rightarrow> nat" where
  "id_of n2i x = fst (subscript n2i x 0)"

definition set_edge :: "int list list \<Rightarrow> nat \<Rightarrow> nat \<Rightarrow> int list list" where
  "set_edge g a b = (let g1 = g[a := (g ! a)[b := 1]] in g1[b := (g1 ! b)[a := 1]])"

text \<open>The two nested loops over the cast of one movie, and the loop over the movies.\<close>

definition connect_cast :: "(string \<times> nat) list \<Rightarrow> string list \<Rightarrow> int list list \<Rightarrow> int list list" where
  "connect_cast n2i cast g =
     fold (\<lambda>i g. fold (\<lambda>j g. set_edge g (id_of n2i (cast ! i)) (id_of n2i (cast ! j)))
                    [i + 1 ..< length cast] g)
          [0 ..< length cast] g"

definition connect_all :: "(string \<times> nat) list \<Rightarrow> (string \<times> string list) list \<Rightarrow>
    int list list \<Rightarrow> int list list" where
  "connect_all n2i movie_to_actor g = fold (\<lambda>p g. connect_cast n2i (snd p) g) movie_to_actor g"

definition BuildStructures :: "string list \<Rightarrow> string list \<Rightarrow> error + Structures" where
  "BuildStructures tsv_file actors_file =
     (case read_tsv (tl tsv_file) ([], [], []) of
        Inl e \<Rightarrow> Inl e
      | Inr (n2i, i2n, movie_to_actor) \<Rightarrow>
          Inr \<lparr>name_to_int = n2i, int_to_name = i2n, actors = tl actors_file,
               graph = connect_all n2i movie_to_actor
                         (replicate (length i2n) (replicate (length i2n) 0))\<rparr>)"

definition predict_max :: nat where
  "predict_max = 4"

text \<open>The dot products of every row with the row of the query actor.\<close>

definition mutual_counts :: "int list list \<Rightarrow> int list \<Rightarrow> int list" where
  "mutual_counts g row =
     fold (\<lambda>dot_ind mc.
             fold (\<lambda>i mc. mc[dot_ind := mc ! dot_ind + ((g ! dot_ind ! i) AND (row ! i))])
                  [0 ..< length row] mc)
          [0 ..< length row] (replicate (length row) 0)"

definition collect_predicts :: "bool \<Rightarrow> int list \<Rightarrow> int list \<Rightarrow> string list \<Rightarrow> (int \<times> string) list" where
  "collect_predicts neighbor row mutual_count i2n =
     fold (\<lambda>i predicts. if row ! i = (if neighbor then 1 else 0)
                         then predicts @ [(mutual_count ! i, i2n ! i)] else predicts)
          [0 ..< length row] []"

definition compare :: "int \<times> string \<Rightarrow> int \<times> string \<Rightarrow> bool" where
  "compare x y = (if fst x = fst y then snd x < snd y else fst x > fst y)"

text \<open>
  \<^verbatim>\<open>std::sort\<close> with a comparator, as insertion sort. \<^verbatim>\<open>compare\<close> and \<^verbatim>\<open>operator<\<close> on
  strings order any two different elements, so the sorted sequence does not depend on
  the sorting algorithm.
\<close>

fun insort_by :: "('a \<Rightarrow> 'a \<Rightarrow> bool) \<Rightarrow> 'a \<Rightarrow> 'a list \<Rightarrow> 'a list" where
  "insort_by lt x [] = [x]"
| "insort_by lt x (y # ys) = (if lt y x then y # insort_by lt x ys else x # y # ys)"

definition sort_by :: "('a \<Rightarrow> 'a \<Rightarrow> bool) \<Rightarrow> 'a list \<Rightarrow> 'a list" where
  "sort_by lt xs = foldr (insort_by lt) xs []"

text \<open>The output loop for one target actor, from index \<open>i\<close> on.\<close>

function emit :: "(int \<times> string) list \<Rightarrow> nat \<Rightarrow> string" where
  "emit predicts i =
     (if i < length predicts
      then (if fst (predicts ! i) = 0 \<or> i \<ge> predict_max then []
            else snd (predicts ! i) @ (if i \<noteq> predict_max - 1 then [tab] else [])
                 @ emit predicts (i + 1))
      else [])"
  by pat_completeness auto
termination
  by (relation "measure (\<lambda>(predicts, i). length predicts - i)") auto

declare emit.simps [simp del]

definition newline :: char where
  "newline = CHR 0x0A"

text \<open>
  The body of the loop over the target actors: the line written for one actor, and the
  globals after it. \<^verbatim>\<open>graph[name_to_int[actor]]\<close> reads out of range when the matrix has
  no row of that id.
\<close>

definition interactions_of :: "bool \<Rightarrow> string \<Rightarrow> Structures \<Rightarrow> error + string \<times> Structures" where
  "interactions_of neighbor actor st =
     (let r = subscript (name_to_int st) actor 0
      in if fst r < length (graph st)
         then let row = graph st ! fst r;
                  mutual_count = (mutual_counts (graph st) row)[id_of (snd r) actor := 0];
                  predicts = collect_predicts neighbor row mutual_count (int_to_name st)
              in Inr (emit (sort_by compare predicts) 0 @ [newline],
                      st\<lparr>name_to_int := snd r\<rparr>)
         else Inl IndexOutOfBounds)"

fun interactions_loop :: "bool \<Rightarrow> string list \<Rightarrow> string \<times> Structures \<Rightarrow> error + string \<times> Structures" where
  "interactions_loop neighbor [] (out, st) = Inr (out, st)"
| "interactions_loop neighbor (actor # rest) (out, st) =
     (case interactions_of neighbor actor st of
        Inl e \<Rightarrow> Inl e
      | Inr (line, st') \<Rightarrow> interactions_loop neighbor rest (out @ line, st'))"

definition FindInteractions :: "bool \<Rightarrow> Structures \<Rightarrow> error + string \<times> Structures" where
  "FindInteractions neighbor st =
     interactions_loop neighbor (actors st) (''Actor1,Actor2,Actor3,Actor4'' @ [newline], st)"

section \<open>popularityfindermain.cpp\<close>

record PopStructures = Structures +
  counts :: "int list"

definition row_sums :: "int list list \<Rightarrow> nat \<Rightarrow> int list" where
  "row_sums g n =
     fold (\<lambda>i c. fold (\<lambda>j c. c[i := c ! i + g ! i ! j]) [0 ..< length g] c)
          [0 ..< length g] (replicate n 0)"

definition BuildStructures_pop :: "string list \<Rightarrow> error + PopStructures" where
  "BuildStructures_pop tsv_file =
     (case read_tsv (tl tsv_file) ([], [], []) of
        Inl e \<Rightarrow> Inl e
      | Inr (n2i, i2n, movie_to_actor) \<Rightarrow>
          (let g = connect_all n2i movie_to_actor
                     (replicate (length i2n) (replicate (length i2n) 0))
           in Inr \<lparr>name_to_int = n2i, int_to_name = i2n, actors = [], graph = g,
                    counts = row_sums g (length i2n)\<rparr>))"

text \<open>
  One visit of vertex \<open>i\<close> in a pruning pass: the state is \<^verbatim>\<open>counts\<close> and \<^verbatim>\<open>not_done\<close>.
\<close>

definition prune_vertex :: "int \<Rightarrow> int list list \<Rightarrow> nat \<Rightarrow> int list \<times> bool \<Rightarrow> int list \<times> bool" where
  "prune_vertex k g i s =
     (let c = fst s
      in if c ! i < k \<and> c ! i > - int (length c)
         then ((fold (\<lambda>j c. if g ! i ! j \<noteq> 0 then c[j := c ! j - 1] else c)
                     [0 ..< length c] c)[i := - int (length c)], True)
         else s)"

definition prune_pass :: "int \<Rightarrow> int list list \<Rightarrow> int list \<Rightarrow> int list \<times> bool" where
  "prune_pass k g c = fold (prune_vertex k g) [0 ..< length c] (c, False)"

text \<open>The \<^verbatim>\<open>while (not_done)\<close> loop: passes until one removes nothing.\<close>

function prune :: "int \<Rightarrow> int list list \<Rightarrow> int list \<Rightarrow> int list" where
  "prune k g c =
     (if snd (prune_pass k g c) then prune k g (fst (prune_pass k g c))
      else fst (prune_pass k g c))"
  by pat_completeness auto

definition survivors :: "int \<Rightarrow> int list \<Rightarrow> nat list" where
  "survivors k c = filter (\<lambda>i. c ! i \<ge> k) [0 ..< length c]"

text \<open>What \<^verbatim>\<open>main\<close> writes to the output file, for the threshold \<open>k\<close>.\<close>

definition popularityfinder :: "string list \<Rightarrow> int \<Rightarrow> error + string" where
  "popularityfinder tsv_file k =
     (case BuildStructures_pop tsv_file of
        Inl e \<Rightarrow> Inl e
      | Inr st \<Rightarrow>
          (let c = prune k (graph st) (counts st);
               names = map (\<lambda>i. int_to_name st ! i) (survivors k c)
           in Inr (''Actor'' @ [newline] @ concat (map (\<lambda>s. s @ [newline]) (sort_by (<) names)))))"

section \<open>Termination of the loops\<close>

declare push_heap_loop.simps [simp del] adjust_down.simps [simp del]

lemma length_push_heap_loop [simp]: "length (push_heap_loop cmp xs h t v) = length xs"
  by (induction cmp xs h t v rule: push_heap_loop.induct)
     (subst push_heap_loop.simps, simp)

lemma length_adjust_down [simp]: "length (fst (adjust_down cmp xs sc len)) = length xs"
  by (induction cmp xs sc len rule: adjust_down.induct)
     (subst adjust_down.simps, simp add: Let_def)

lemma length_adjust_heap [simp]: "length (adjust_heap cmp xs h len v) = length xs"
  by (simp add: adjust_heap_def split_beta Let_def)

lemma length_pq_push [simp]: "length (pq_push cmp c x) = Suc (length c)"
  by (simp add: pq_push_def)

lemma length_pq_pop [simp]: "length (pq_pop cmp c) = length c - 1"
  by (simp add: pq_pop_def)

definition todo :: "(string \<times> Vertex) list \<Rightarrow> (string \<times> bool) list" where
  "todo vs = map (\<lambda>p. (fst p, done_v (snd p))) vs"

lemma todo_update_same:
  "map_of vs k = Some a \<Longrightarrow> done_v b = done_v a \<Longrightarrow> todo (AList.update k b vs) = todo vs"
  by (induction vs) (auto simp: todo_def)

lemma relax_cast_todo:
  "relax_cast w movie weight cast (vs, pq) = Inr (vs', pq') \<Longrightarrow> todo vs' = todo vs"
proof (induction cast arbitrary: vs pq)
  case Nil
  then show ?case by simp
next
  case (Cons a cast)
  then show ?case
    by (auto simp: Let_def todo_update_same split: if_splits option.splits)
qed

lemma relax_movies_todo:
  "relax_movies w movies (mm, vs, pq) = Inr (mm', vs', pq') \<Longrightarrow> todo vs' = todo vs"
proof (induction movies arbitrary: mm vs pq)
  case Nil
  then show ?case by simp
next
  case (Cons m movies)
  then show ?case
    by (auto simp: Let_def split: sum.splits dest: relax_cast_todo)
qed

definition pending :: "(string \<times> Vertex) list \<Rightarrow> nat" where
  "pending vs = length (filter (\<lambda>p. \<not> snd p) (todo vs))"

lemma pending_mark_done:
  "map_of vs k = Some v \<Longrightarrow> \<not> done_v v \<Longrightarrow>
   pending (AList.update k (v\<lparr>done_v := True\<rparr>) vs) < pending vs"
  by (induction vs) (auto simp: pending_def todo_def less_Suc_eq_le)

termination dijkstra
proof (relation "measures [\<lambda>(e, am, mm, vs, pq, w). pending vs, \<lambda>(e, am, mm, vs, pq, w). length pq]",
       goal_cases)
  case 1
  show ?case by simp
next
  case (2 end_name am mm vs pq working v)
  then show ?case by (cases pq) auto
next
  case (3 end_name am mm vs pq working v x mm' y vs' pq')
  then have "todo vs' = todo (AList.update (hd pq) (v\<lparr>done_v := True\<rparr>) vs)"
    using relax_movies_todo by metis
  then have "pending vs' = pending (AList.update (hd pq) (v\<lparr>done_v := True\<rparr>) vs)"
    by (simp add: pending_def)
  with 3 show ?case
    using pending_mark_done [of vs "hd pq" v] by simp
qed

declare dijkstra.simps [simp del]

subsection \<open>Termination of the pruning loop\<close>

definition dec_neighbours :: "int list list \<Rightarrow> nat \<Rightarrow> nat \<Rightarrow> int list \<Rightarrow> int list" where
  "dec_neighbours g i m c = fold (\<lambda>j c. if g ! i ! j \<noteq> 0 then c[j := c ! j - 1] else c) [0 ..< m] c"

lemma dec_neighbours_Suc:
  "dec_neighbours g i (Suc m) c =
     (let d = dec_neighbours g i m c in if g ! i ! m \<noteq> 0 then d[m := d ! m - 1] else d)"
  by (simp add: dec_neighbours_def Let_def)

lemma length_dec_neighbours [simp]: "length (dec_neighbours g i m c) = length c"
  by (induction m) (simp_all add: dec_neighbours_Suc Let_def, simp add: dec_neighbours_def)

lemma dec_neighbours_nth:
  "m \<le> length c \<Longrightarrow> j < length c \<Longrightarrow>
   dec_neighbours g i m c ! j = (if j < m \<and> g ! i ! j \<noteq> 0 then c ! j - 1 else c ! j)"
proof (induction m)
  case 0
  then show ?case by (simp add: dec_neighbours_def)
next
  case (Suc m)
  then show ?case
    by (auto simp: dec_neighbours_Suc Let_def nth_list_update less_Suc_eq)
qed

lemma prune_vertex_fire:
  "fst s ! i < k \<Longrightarrow> - int (length (fst s)) < fst s ! i \<Longrightarrow>
   prune_vertex k g i s =
     ((dec_neighbours g i (length (fst s)) (fst s))[i := - int (length (fst s))], True)"
  by (simp add: prune_vertex_def dec_neighbours_def Let_def)

lemma prune_vertex_skip:
  "\<not> (fst s ! i < k \<and> - int (length (fst s)) < fst s ! i) \<Longrightarrow> prune_vertex k g i s = s"
  by (auto simp: prune_vertex_def Let_def)

lemma length_prune_vertex [simp]: "length (fst (prune_vertex k g i s)) = length (fst s)"
  by (cases "fst s ! i < k \<and> - int (length (fst s)) < fst s ! i")
     (simp_all add: prune_vertex_fire prune_vertex_skip)

lemma dec_neighbours_le:
  "j < length c \<Longrightarrow> dec_neighbours g i (length c) c ! j \<le> c ! j"
  by (simp add: dec_neighbours_nth)

lemma prune_vertex_le:
  assumes "j < length (fst s)"
  shows "fst (prune_vertex k g i s) ! j \<le> fst s ! j"
proof (cases "fst s ! i < k \<and> - int (length (fst s)) < fst s ! i")
  case True
  show ?thesis
  proof (cases "j = i")
    case True
    with \<open>fst s ! i < k \<and> - int (length (fst s)) < fst s ! i\<close> assms show ?thesis
      by (simp add: prune_vertex_fire)
  next
    case False
    with True assms show ?thesis
      by (simp add: prune_vertex_fire dec_neighbours_le)
  qed
next
  case False
  then show ?thesis by (simp add: prune_vertex_skip)
qed

definition shrunk :: "int list \<Rightarrow> int list \<times> bool \<Rightarrow> bool" where
  "shrunk c s \<longleftrightarrow>
     length (fst s) = length c \<and> (\<forall>j < length c. fst s ! j \<le> c ! j) \<and>
     (snd s \<longrightarrow> (\<exists>i < length c. - int (length c) < c ! i \<and> fst s ! i \<le> - int (length c)))"

lemma shrunk_prune_vertex:
  assumes "shrunk c s" and "i < length c"
  shows "shrunk c (prune_vertex k g i s)"
proof (cases "fst s ! i < k \<and> - int (length (fst s)) < fst s ! i")
  case True
  let ?s' = "prune_vertex k g i s"
  from assms have len: "length (fst s) = length c"
    by (simp add: shrunk_def)
  have le: "\<forall>j < length c. fst ?s' ! j \<le> c ! j"
  proof (intro allI impI)
    fix j assume j: "j < length c"
    have "fst ?s' ! j \<le> fst s ! j" using prune_vertex_le j len by simp
    also have "\<dots> \<le> c ! j" using assms(1) j by (simp add: shrunk_def)
    finally show "fst ?s' ! j \<le> c ! j" .
  qed
  have "- int (length c) < c ! i"
    using True assms len by (force simp: shrunk_def)
  moreover have "fst ?s' ! i \<le> - int (length c)"
    using True assms(2) len by (simp add: prune_vertex_fire)
  ultimately show ?thesis
    using le assms(2) len by (auto simp: shrunk_def)
next
  case False
  with assms show ?thesis by (simp add: prune_vertex_skip)
qed

lemma shrunk_prune_pass: "shrunk c (prune_pass k g c)"
  unfolding prune_pass_def
  by (rule fold_invariant [where Q = "\<lambda>i. i < length c"])
     (simp_all add: shrunk_def shrunk_prune_vertex [unfolded shrunk_def])

definition alive :: "int list \<Rightarrow> nat set" where
  "alive c = {i. i < length c \<and> - int (length c) < c ! i}"

lemma finite_alive [simp]: "finite (alive c)"
  by (simp add: alive_def)

lemma shrunk_alive:
  assumes "shrunk c s" and "snd s"
  shows "card (alive (fst s)) < card (alive c)"
proof (rule psubset_card_mono)
  show "finite (alive c)" by simp
  from assms obtain i where i: "i < length c" "- int (length c) < c ! i"
      "fst s ! i \<le> - int (length c)"
    by (auto simp: shrunk_def)
  from assms(1) have len: "length (fst s) = length c"
    and le: "\<And>j. j < length c \<Longrightarrow> fst s ! j \<le> c ! j"
    by (simp_all add: shrunk_def)
  have "alive (fst s) \<subseteq> alive c"
    using le len by (fastforce simp: alive_def)
  moreover have "i \<in> alive c" "i \<notin> alive (fst s)"
    using i len by (simp_all add: alive_def)
  ultimately show "alive (fst s) \<subset> alive c" by blast
qed

termination prune
  by (relation "measure (\<lambda>(k, g, c). card (alive c))")
     (simp_all add: shrunk_alive [OF shrunk_prune_pass])

declare prune.simps [simp del]

section \<open>The graph of the path finder\<close>


lemma add_record_vertices [simp]: "vertices (add_record w a m y g) = vertices g"
  by (simp add: add_record_def Let_def split del: if_split)

lemma load_loop_True:
  "load_loop w ls g0 = Inr (True, g) \<Longrightarrow> \<exists>g'. g = init_vertices g' \<and> vertices g' = vertices g0"
proof (induction ls arbitrary: g0)
  case Nil
  then show ?case by auto
next
  case (Cons l ls)
  let ?r = "record_of l"
  from Cons.prems have len: "length ?r = 3"
    by (simp add: Let_def split: if_splits)
  with Cons.prems obtain y where
    "load_loop w ls (add_record w (?r ! 0) (?r ! 1 @ ''#@'' @ ?r ! 2) y g0) = Inr (True, g)"
    by (simp add: Let_def split: sum.splits)
  from Cons.IH [OF this] show ?case by simp
qed

lemma fold_new_Vertex_name:
  "(\<And>k v. map_of vs k = Some v \<Longrightarrow> name v = k) \<Longrightarrow>
   map_of (fold (\<lambda>p vs. AList.update (fst p) (new_Vertex (fst p)) vs) am vs) k = Some v \<Longrightarrow>
   name v = k"
proof (induction am arbitrary: vs)
  case Nil
  then show ?case by simp
next
  case (Cons p am)
  have step: "name v' = k'"
    if "map_of (AList.update (fst p) (new_Vertex (fst p)) vs) k' = Some v'" for k' v'
  proof (cases "k' = fst p")
    case True
    with that show ?thesis by (auto simp: update_conv' new_Vertex_def)
  next
    case False
    with that have "map_of vs k' = Some v'" by (simp add: update_conv')
    then show ?thesis by (rule Cons.prems(1))
  qed
  from Cons.prems(2) show ?case
    by (intro Cons.IH [OF step]) simp_all
qed

lemma init_vertices_name:
  assumes "\<And>k v. map_of (vertices g) k = Some v \<Longrightarrow> name v = k"
    and "map_of (vertices (init_vertices g)) k = Some v"
  shows "name v = k"
  using fold_new_Vertex_name [of "vertices g" "actor_map g" k v] assms
  by (simp add: init_vertices_def)

lemma loaded_vertex_name:
  assumes "loadFromFile in_file w empty_graph = Inr (True, g)"
    and "map_of (vertices g) k = Some v"
  shows "name v = k"
proof -
  from assms(1) obtain g' where g': "g = init_vertices g'" "vertices g' = []"
    using load_loop_True [of w "tl in_file" empty_graph g]
    by (auto simp: loadFromFile_def empty_graph_def)
  show ?thesis
    using init_vertices_name [of g' k v] g' assms(2) by simp
qed

lemma reset_vertex_fields [simp]:
  "name (reset_vertex v) = name v" "prev_actor (reset_vertex v) = []"
  "done_v (reset_vertex v) = False" "dist (reset_vertex v) = INT_MAX"
  "prev_movie (reset_vertex v) = []"
  by (simp_all add: reset_vertex_def)

lemma map_of_reset:
  "map_of (map (\<lambda>p. (fst p, reset_vertex (snd p))) vs) k = map_option reset_vertex (map_of vs k)"
  by (induction vs) auto

subsection \<open>The names of the vertices across queries\<close>

text \<open>
  The vertices persist from one query to the next: \<^verbatim>\<open>findPath\<close> resets their fields at
  its start and leaves them as the search set them. What never changes is the name that
  each vertex carries.
\<close>

definition names :: "(string \<times> Vertex) list \<Rightarrow> (string \<times> string) list" where
  "names vs = map (\<lambda>p. (fst p, name (snd p))) vs"

lemma names_update_same:
  "map_of vs k = Some a \<Longrightarrow> name b = name a \<Longrightarrow> names (AList.update k b vs) = names vs"
  by (induction vs) (auto simp: names_def)

lemma names_reset: "names (map (\<lambda>p. (fst p, reset_vertex (snd p))) vs) = names vs"
  by (simp add: names_def)

lemma map_of_names: "map_of (names vs) k = map_option name (map_of vs k)"
  by (induction vs) (auto simp: names_def)

lemma relax_cast_names:
  "relax_cast w movie weight cast (vs, pq) = Inr (vs', pq') \<Longrightarrow> names vs' = names vs"
proof (induction cast arbitrary: vs pq)
  case Nil
  then show ?case by simp
next
  case (Cons a cast)
  then show ?case
    by (auto simp: Let_def names_update_same split: if_splits option.splits)
qed

lemma relax_movies_names:
  "relax_movies w movies (mm, vs, pq) = Inr (mm', vs', pq') \<Longrightarrow> names vs' = names vs"
proof (induction movies arbitrary: mm vs pq)
  case Nil
  then show ?case by simp
next
  case (Cons m movies)
  then show ?case
    by (auto simp: Let_def split: sum.splits dest: relax_cast_names)
qed

lemma dijkstra_names:
  "dijkstra e s = Inr r \<Longrightarrow> names (fst (snd (snd r))) = names (fst (snd (snd s)))"
proof (induction e s rule: dijkstra.induct)
  case (1 end_name am mm vs pq working)
  show ?case
  proof (cases "pq = []")
    case True
    with "1.prems" show ?thesis by (subst (asm) dijkstra.simps) auto
  next
    case False
    note pq = this
    show ?thesis
    proof (cases "map_of vs (hd pq)")
      case None
      with "1.prems" pq show ?thesis by (subst (asm) dijkstra.simps) simp
    next
      case (Some v)
      note v = this
      show ?thesis
      proof (cases "name v = end_name")
        case True
        with "1.prems" pq v show ?thesis by (subst (asm) dijkstra.simps) auto
      next
        case False
        note ne = this
        show ?thesis
        proof (cases "done_v v")
          case True
          with "1.prems" pq v ne
          have "dijkstra end_name (am, mm, vs, pq_pop (vertexComp vs) pq, hd pq) = Inr r"
            by (subst (asm) dijkstra.simps) simp
          from "1.IH"(1) [OF pq v ne True this] show ?thesis by simp
        next
          case False
          let ?vs1 = "AList.update (hd pq) (v\<lparr>done_v := True\<rparr>) vs"
          from "1.prems" pq v ne False obtain mm' vs' pq' where
            rel: "relax_movies (hd pq) (fst (subscript am (name v) []))
                    (mm, ?vs1, pq_pop (vertexComp vs) pq) = Inr (mm', vs', pq')"
            and rest: "dijkstra end_name (snd (subscript am (name v) []), mm', vs', pq', hd pq) = Inr r"
            by (subst (asm) dijkstra.simps) (auto split: sum.splits)
          from "1.IH"(2) [OF pq v ne False rel refl refl rest]
          have "names (fst (snd (snd r))) = names vs'" by simp
          also from relax_movies_names [OF rel] have "\<dots> = names ?vs1" .
          also from v have "\<dots> = names vs" by (simp add: names_update_same)
          finally show ?thesis by simp
        qed
      qed
    qed
  qed
qed

lemma findPath_names:
  assumes "findPath g a b = Some (Inr r)"
  shows "names (vertices (snd r)) = names (vertices g)"
proof -
  let ?vs0 = "map (\<lambda>p. (fst p, reset_vertex (snd p))) (vertices g)"
  from assms obtain s where s: "map_of ?vs0 a = Some s"
    by (auto simp: findPath_def Let_def split: option.splits)
  let ?vs1 = "AList.update a (s\<lparr>dist := 0\<rparr>) ?vs0"
  from assms s obtain q where
    q: "dijkstra b (actor_map g, movie_map g, ?vs1, pq_push (vertexComp ?vs1) [] a, a) = Inr q"
    and r: "vertices (snd r) = fst (snd (snd q))"
    by (auto simp: findPath_def Let_def split: sum.splits option.splits)
  from dijkstra_names [OF q] have "names (fst (snd (snd q))) = names ?vs1" by simp
  also from s have "\<dots> = names ?vs0" by (simp add: names_update_same)
  also have "\<dots> = names (vertices g)" by (rule names_reset)
  finally show ?thesis by (simp add: r)
qed

lemma pairs_loop_names:
  "pairs_loop ls s = Some (Inr s') \<Longrightarrow> names (vertices (snd s')) = names (vertices (snd s))"
proof (induction ls arbitrary: s)
  case Nil
  then show ?case by simp
next
  case (Cons l ls)
  let ?r = "record_of l"
  from Cons.prems obtain q where
    q: "findPath (snd s) (?r ! 0) (?r ! 1) = Some (Inr q)"
    and rest: "pairs_loop ls (fst s @ fst q @ [CHR 0x0A], snd q) = Some (Inr s')"
    by (auto split: if_splits option.splits sum.splits)
  from Cons.IH [OF rest] findPath_names [OF q] show ?case by simp
qed

text \<open>
  Claim C10. At any query of a run of the path finder, that is, on the graph \<open>g\<close> that
  \<^verbatim>\<open>loadFromFile\<close> built and the queries \<open>earlier\<close> have left: when the start name equals
  the end name and \<open>g\<close> has a vertex of that name, \<^verbatim>\<open>findPath\<close> returns, writes exactly
  \<^verbatim>\<open>(name)\<close>, and leaves \<^verbatim>\<open>actor_map\<close> and \<^verbatim>\<open>movie_map\<close> as they were; the vertices are the
  reset ones with distance 0 at the start, so the loop ended at its first pop, before any
  relaxation.
\<close>

theorem findPath_same_actor:
  assumes "loadFromFile in_file w empty_graph = Inr (True, g0)"
    and "pairs_loop earlier (out0, g0) = Some (Inr (out, g))"
    and "map_of (vertices g) nm = Some v"
  shows "findPath g nm nm =
           Some (Inr (''('' @ nm @ '')'',
                      g\<lparr>vertices := AList.update nm ((reset_vertex v)\<lparr>dist := 0\<rparr>)
                                       (map (\<lambda>p. (fst p, reset_vertex (snd p))) (vertices g))\<rparr>))"
proof -
  let ?vs0 = "map (\<lambda>p. (fst p, reset_vertex (snd p))) (vertices g)"
  let ?s = "(reset_vertex v)\<lparr>dist := 0\<rparr>"
  let ?vs1 = "AList.update nm ?s ?vs0"
  from pairs_loop_names [OF assms(2)] have "names (vertices g) = names (vertices g0)"
    by simp
  then have "map_of (names (vertices g0)) nm = map_of (names (vertices g)) nm"
    by simp
  with assms(3) obtain v0 where v0: "map_of (vertices g0) nm = Some v0" "name v0 = name v"
    by (auto simp: map_of_names)
  have nm: "name v = nm"
    using loaded_vertex_name [OF assms(1) v0(1)] v0(2) by simp
  have start: "map_of ?vs0 nm = Some (reset_vertex v)"
    by (simp add: map_of_reset assms(3))
  have push: "pq_push (vertexComp ?vs1) [] nm = [nm]"
    unfolding pq_push_def by (subst push_heap_loop.simps) simp
  have look: "map_of ?vs1 nm = Some ?s"
    by (simp add: update_conv')
  have loop: "dijkstra nm (actor_map g, movie_map g, ?vs1, [nm], nm)
                = Inr (actor_map g, movie_map g, ?vs1, nm)"
    by (subst dijkstra.simps) (simp add: look nm)
  have walk: "walk_back ?vs1 nm [] = Some (Inr [nm])"
    by (subst walk_back.simps) (simp add: look nm)
  show ?thesis
    by (simp add: findPath_def Let_def start push loop walk)
qed

section \<open>What \<^verbatim>\<open>BuildStructures\<close> builds\<close>

subsection \<open>The read loop\<close>

definition cast_of :: "(string \<times> string list) list \<Rightarrow> string \<Rightarrow> string list" where
  "cast_of m t = (case map_of m t of None \<Rightarrow> [] | Some c \<Rightarrow> c)"

definition read_record :: "string \<Rightarrow> string \<Rightarrow>
    (string \<times> nat) list \<times> string list \<times> (string \<times> string list) list \<Rightarrow>
    (string \<times> nat) list \<times> string list \<times> (string \<times> string list) list" where
  "read_record a t s =
     (case s of (n2i, i2n, m) \<Rightarrow>
        (if map_of n2i a = None then AList.update a (length i2n) n2i else n2i,
         if map_of n2i a = None then i2n @ [a] else i2n,
         AList.update t (cast_of m t @ [a]) m))"

lemma read_tsv_Cons:
  "read_tsv (l # rest) s =
     (if length (record_of l) < 3 then Inl IndexOutOfBounds
      else read_tsv rest (read_record (record_of l ! 0) (record_of l ! 1 @ record_of l ! 2) s))"
proof (cases s)
  case (fields n2i i2n m)
  have "AList.update t (fst (subscript (if map_of m t = None then AList.update t [] m else m) t [])
           @ [a]) (if map_of m t = None then AList.update t [] m else m)
        = AList.update t (cast_of m t @ [a]) m" for t a
    by (cases "map_of m t") (simp_all add: subscript_def cast_of_def update_conv')
  then show ?thesis
    by (cases "length (record_of l) < 3") (simp_all add: fields read_record_def Let_def)
qed


lemma read_tsv_invariant:
  assumes step: "\<And>l s. length (record_of l) \<ge> 3 \<Longrightarrow> P s \<Longrightarrow>
      P (read_record (record_of l ! 0) (record_of l ! 1 @ record_of l ! 2) s)"
  shows "read_tsv ls s = Inr s' \<Longrightarrow> P s \<Longrightarrow> P s'"
proof (induction ls arbitrary: s)
  case Nil
  then show ?case by simp
next
  case (Cons l ls)
  from Cons.prems(1) have len: "length (record_of l) \<ge> 3"
    by (simp add: read_tsv_Cons split: if_splits)
  with Cons.prems(1) have
    "read_tsv ls (read_record (record_of l ! 0) (record_of l ! 1 @ record_of l ! 2) s) = Inr s'"
    by (simp add: read_tsv_Cons)
  then show ?case
    by (rule Cons.IH) (rule step [OF len Cons.prems(2)])
qed

definition registry :: "(string \<times> nat) list \<Rightarrow> string list \<Rightarrow> bool" where
  "registry n2i i2n \<longleftrightarrow>
     distinct i2n \<and> (\<forall>nm i. map_of n2i nm = Some i \<longleftrightarrow> i < length i2n \<and> i2n ! i = nm)"

lemma registry_absent:
  assumes "registry n2i i2n" and "map_of n2i a = None"
  shows "a \<notin> set i2n"
proof
  assume "a \<in> set i2n"
  then obtain i where "i < length i2n" "i2n ! i = a"
    by (auto simp: in_set_conv_nth)
  with assms(1) have "map_of n2i a = Some i"
    by (simp add: registry_def)
  with assms(2) show False by simp
qed

lemma registry_present: "registry n2i i2n \<Longrightarrow> map_of n2i a = Some i \<Longrightarrow> a \<in> set i2n"
  by (auto simp: registry_def)

lemma registry_id_of:
  assumes "registry n2i i2n" and "a \<in> set i2n"
  shows "id_of n2i a < length i2n" and "i2n ! id_of n2i a = a"
proof -
  from assms(2) obtain i where "i < length i2n" "i2n ! i = a"
    by (auto simp: in_set_conv_nth)
  with assms(1) have "map_of n2i a = Some i"
    by (simp add: registry_def)
  then have "id_of n2i a = i"
    by (simp add: id_of_def subscript_def)
  with \<open>i < length i2n\<close> \<open>i2n ! i = a\<close>
  show "id_of n2i a < length i2n" and "i2n ! id_of n2i a = a" by simp_all
qed

lemma registry_id_of_nth:
  assumes "registry n2i i2n" and "i < length i2n"
  shows "id_of n2i (i2n ! i) = i"
proof -
  from assms have "map_of n2i (i2n ! i) = Some i"
    by (simp add: registry_def)
  then show ?thesis by (simp add: id_of_def subscript_def)
qed

lemma registry_step:
  assumes "registry n2i i2n"
  shows "registry (if map_of n2i a = None then AList.update a (length i2n) n2i else n2i)
                  (if map_of n2i a = None then i2n @ [a] else i2n)"
proof (cases "map_of n2i a")
  case None
  from assms None have a: "a \<notin> set i2n" by (rule registry_absent)
  have "map_of (AList.update a (length i2n) n2i) nm = Some i
          \<longleftrightarrow> i < length (i2n @ [a]) \<and> (i2n @ [a]) ! i = nm" for nm i
  proof (cases "nm = a")
    case True
    with a show ?thesis
      by (auto simp: update_conv' nth_append)
  next
    case False
    with assms show ?thesis
      by (auto simp: update_conv' nth_append registry_def)
  qed
  with assms a None show ?thesis
    by (simp add: registry_def)
next
  case (Some i)
  with assms show ?thesis by simp
qed

definition casts_known :: "string list \<Rightarrow> (string \<times> string list) list \<Rightarrow> bool" where
  "casts_known i2n m \<longleftrightarrow> (\<forall>p \<in> set m. set (snd p) \<subseteq> set i2n)"

lemma set_update_subset: "set (AList.update k v al) \<subseteq> insert (k, v) (set al)"
  by (induction al) auto

lemma cast_of_in: "cast_of m t \<noteq> [] \<Longrightarrow> (t, cast_of m t) \<in> set m"
  by (auto simp: cast_of_def split: option.splits dest: map_of_SomeD)

lemma casts_known_cast_of:
  assumes "casts_known i2n m"
  shows "set (cast_of m t) \<subseteq> set i2n"
proof (cases "cast_of m t = []")
  case True
  then show ?thesis by simp
next
  case False
  then have "(t, cast_of m t) \<in> set m" by (rule cast_of_in)
  with assms have "set (snd (t, cast_of m t)) \<subseteq> set i2n"
    unfolding casts_known_def by blast
  then show ?thesis by simp
qed

definition read_ok :: "(string \<times> nat) list \<times> string list \<times> (string \<times> string list) list \<Rightarrow> bool" where
  "read_ok s \<longleftrightarrow> (case s of (n2i, i2n, m) \<Rightarrow> registry n2i i2n \<and> casts_known i2n m)"

lemma read_ok_step: "read_ok s \<Longrightarrow> read_ok (read_record a t s)"
proof (cases s)
  case (fields n2i i2n m)
  assume "read_ok s"
  with fields have reg: "registry n2i i2n" and known: "casts_known i2n m"
    by (simp_all add: read_ok_def)
  let ?i2n' = "if map_of n2i a = None then i2n @ [a] else i2n"
  have sub: "set i2n \<subseteq> set ?i2n'" by auto
  have a: "a \<in> set ?i2n'"
    using reg by (cases "map_of n2i a") (auto dest: registry_present)
  have "set (snd p) \<subseteq> set ?i2n'" if "p \<in> set (AList.update t (cast_of m t @ [a]) m)" for p
  proof -
    from that set_update_subset have "p = (t, cast_of m t @ [a]) \<or> p \<in> set m" by fastforce
    then show ?thesis
    proof
      assume "p = (t, cast_of m t @ [a])"
      with casts_known_cast_of [OF known, of t] sub a show ?thesis by auto
    next
      assume "p \<in> set m"
      with known sub show ?thesis by (auto simp: casts_known_def)
    qed
  qed
  then have "casts_known ?i2n' (AList.update t (cast_of m t @ [a]) m)"
    by (simp add: casts_known_def)
  with registry_step [OF reg, of a] show ?thesis
    by (simp add: fields read_record_def read_ok_def)
qed

lemma read_ok_empty: "read_ok ([], [], [])"
  by (simp add: read_ok_def registry_def casts_known_def)

lemma read_tsv_ok:
  assumes "read_tsv ls ([], [], []) = Inr (n2i, i2n, m)"
  shows "registry n2i i2n" and "casts_known i2n m"
proof -
  have "read_ok (n2i, i2n, m)"
    by (rule read_tsv_invariant [where P = read_ok, OF _ assms read_ok_empty])
       (rule read_ok_step)
  then show "registry n2i i2n" and "casts_known i2n m"
    by (simp_all add: read_ok_def)
qed


subsection \<open>The adjacency matrix\<close>

definition square :: "nat \<Rightarrow> int list list \<Rightarrow> bool" where
  "square n g \<longleftrightarrow> length g = n \<and> (\<forall>i < n. length (g ! i) = n)"

lemma square_replicate: "square n (replicate n (replicate n 0))"
  by (simp add: square_def)

lemma square_row_update:
  assumes "square n g" and "a < n \<Longrightarrow> length r = n"
  shows "square n (g[a := r])"
proof (cases "a < n")
  case True
  with assms show ?thesis
    by (auto simp: square_def nth_list_update)
next
  case False
  with assms(1) show ?thesis
    by (simp add: square_def)
qed

lemma square_set_edge:
  assumes "square n g"
  shows "square n (set_edge g a b)"
proof -
  have 1: "square n (g[a := (g ! a)[b := 1]])"
    using assms by (intro square_row_update) (simp_all add: square_def)
  have 2: "length ((g[a := (g ! a)[b := 1]] ! b)[a := 1]) = n" if "b < n"
    using 1 that by (simp add: square_def)
  show ?thesis
    unfolding set_edge_def Let_def
    using 1 2 by (rule square_row_update)
qed

lemma set_edge_nth:
  assumes "square n g" and "a < n" and "b < n" and "i < n" and "j < n"
  shows "set_edge g a b ! i ! j = (if (i = a \<and> j = b) \<or> (i = b \<and> j = a) then 1 else g ! i ! j)"
  using assms by (auto simp: square_def set_edge_def Let_def nth_list_update)

text \<open>The matrix is square, symmetric and holds only 0 and 1.\<close>

definition adjacency :: "nat \<Rightarrow> int list list \<Rightarrow> bool" where
  "adjacency n g \<longleftrightarrow>
     square n g \<and> (\<forall>i < n. \<forall>j < n. g ! i ! j = g ! j ! i \<and> (g ! i ! j = 0 \<or> g ! i ! j = 1))"

lemma adjacency_replicate: "adjacency n (replicate n (replicate n 0))"
  by (simp add: adjacency_def square_replicate)

lemma adjacency_set_edge:
  assumes "adjacency n g" and "a < n" and "b < n"
  shows "adjacency n (set_edge g a b)"
proof -
  from assms(1) have sq: "square n g" by (simp add: adjacency_def)
  have "set_edge g a b ! i ! j = set_edge g a b ! j ! i \<and>
        (set_edge g a b ! i ! j = 0 \<or> set_edge g a b ! i ! j = 1)"
    if "i < n" "j < n" for i j
    using that assms(1) by (auto simp: set_edge_nth [OF sq assms(2,3)] adjacency_def)
  with square_set_edge [OF sq] show ?thesis
    by (simp add: adjacency_def)
qed

lemma connect_cast_invariant:
  assumes "P g"
    and "\<And>g i j. P g \<Longrightarrow> i < j \<Longrightarrow> j < length cast \<Longrightarrow>
           P (set_edge g (id_of n2i (cast ! i)) (id_of n2i (cast ! j)))"
  shows "P (connect_cast n2i cast g)"
  unfolding connect_cast_def
proof (rule fold_invariant [where Q = "\<lambda>i. i < length cast" and P = P])
  show "P g" by fact
next
  fix i assume "i \<in> set [0 ..< length cast]"
  then show "i < length cast" by simp
next
  fix i g' assume i: "i < length cast" and g': "P g'"
  show "P (fold (\<lambda>j g. set_edge g (id_of n2i (cast ! i)) (id_of n2i (cast ! j)))
             [i + 1 ..< length cast] g')"
  proof (rule fold_invariant [where Q = "\<lambda>j. i < j \<and> j < length cast" and P = P])
    show "P g'" by fact
  next
    fix j assume "j \<in> set [i + 1 ..< length cast]"
    then show "i < j \<and> j < length cast" by simp
  next
    fix j g'' assume "i < j \<and> j < length cast" and "P g''"
    then show "P (set_edge g'' (id_of n2i (cast ! i)) (id_of n2i (cast ! j)))"
      using assms(2) by simp
  qed
qed

lemma connect_all_invariant:
  assumes "P g"
    and "\<And>g cast i j. P g \<Longrightarrow> cast \<in> snd ` set m \<Longrightarrow> i < j \<Longrightarrow> j < length cast \<Longrightarrow>
           P (set_edge g (id_of n2i (cast ! i)) (id_of n2i (cast ! j)))"
  shows "P (connect_all n2i m g)"
  unfolding connect_all_def
proof (rule fold_invariant [where Q = "\<lambda>p. p \<in> set m" and P = P])
  show "P g" by fact
next
  fix p assume "p \<in> set m"
  then show "p \<in> set m" .
next
  fix p g' assume p: "p \<in> set m" and g': "P g'"
  show "P (connect_cast n2i (snd p) g')"
  proof (rule connect_cast_invariant [where P = P])
    show "P g'" by fact
  next
    fix g i j assume "P g" "i < j" "j < length (snd p)"
    with p show "P (set_edge g (id_of n2i (snd p ! i)) (id_of n2i (snd p ! j)))"
      by (intro assms(2)) simp_all
  qed
qed

lemma connect_all_adjacency:
  assumes "registry n2i i2n" and "casts_known i2n m"
  shows "adjacency (length i2n) (connect_all n2i m (replicate (length i2n) (replicate (length i2n) 0)))"
proof (rule connect_all_invariant [where P = "adjacency (length i2n)"])
  show "adjacency (length i2n) (replicate (length i2n) (replicate (length i2n) 0))"
    by (rule adjacency_replicate)
next
  fix g cast i j
  assume g: "adjacency (length i2n) g" and c: "cast \<in> snd ` set m" and ij: "i < j" "j < length cast"
  from c assms(2) have "set cast \<subseteq> set i2n"
    by (auto simp: casts_known_def)
  with ij have "cast ! i \<in> set i2n" "cast ! j \<in> set i2n"
    by (auto simp: subset_iff)
  then have "id_of n2i (cast ! i) < length i2n" "id_of n2i (cast ! j) < length i2n"
    using registry_id_of(1) [OF assms(1)] by simp_all
  with g show "adjacency (length i2n) (set_edge g (id_of n2i (cast ! i)) (id_of n2i (cast ! j)))"
    by (rule adjacency_set_edge)
qed

text \<open>A matrix without self-loops: an adjacency matrix with zero diagonal.\<close>

definition no_loops :: "nat \<Rightarrow> int list list \<Rightarrow> bool" where
  "no_loops n g \<longleftrightarrow> adjacency n g \<and> (\<forall>i < n. g ! i ! i = 0)"

section \<open>The link scorer\<close>

subsection \<open>Sorting with a comparator\<close>

lemma insort_by_key:
  assumes "\<And>a b. lt a b \<longleftrightarrow> f a < f b"
  shows "insort_by lt x ys = insort_key f x ys"
  by (induction ys) (auto simp: assms)

lemma sort_by_key:
  assumes "\<And>a b. lt a b \<longleftrightarrow> f a < f b"
  shows "sort_by lt xs = sort_key f xs"
  by (induction xs) (simp_all add: sort_by_def insort_by_key [OF assms] sort_key_def)

definition rank :: "int \<times> string \<Rightarrow> int \<times> string" where
  "rank p = (- fst p, snd p)"

lemma compare_rank: "compare x y \<longleftrightarrow> rank x < rank y"
  by (auto simp: compare_def rank_def)

lemma sort_by_compare: "sort_by compare ps = sort_key rank ps"
  by (rule sort_by_key) (rule compare_rank)

lemma sort_by_less: "sort_by (<) (xs :: string list) = sort xs"
  by (rule sort_by_key) simp

lemma insort_key_map: "insort_key f (h x) (map h ys) = map h (insort_key (\<lambda>y. f (h y)) x ys)"
  by (induction ys) simp_all

lemma sort_key_map: "sort_key f (map h xs) = map h (sort_key (\<lambda>y. f (h y)) xs)"
  by (induction xs) (simp_all add: insort_key_map)

lemma insort_key_cong_set:
  "f x = f' x \<Longrightarrow> (\<And>y. y \<in> set ys \<Longrightarrow> f y = f' y) \<Longrightarrow> insort_key f x ys = insort_key f' x ys"
  by (induction ys) simp_all

lemma sort_key_cong_set:
  "(\<And>x. x \<in> set xs \<Longrightarrow> f x = f' x) \<Longrightarrow> sort_key f xs = sort_key f' xs"
proof (induction xs)
  case Nil
  then show ?case by simp
next
  case (Cons x xs)
  then have "sort_key f xs = sort_key f' xs" by simp
  moreover have "insort_key f x (sort_key f' xs) = insort_key f' x (sort_key f' xs)"
    by (rule insort_key_cong_set) (simp_all add: Cons.prems)
  ultimately show ?case by simp
qed

text \<open>In a ranked list the pairs with count 0 come last.\<close>

lemma ranked_zero_tail:
  "sorted (map rank ps) \<Longrightarrow> (\<And>p. p \<in> set ps \<Longrightarrow> 0 \<le> fst p) \<Longrightarrow>
   p \<in> set (dropWhile (\<lambda>p. fst p \<noteq> 0) ps) \<Longrightarrow> fst p = 0"
proof (induction ps)
  case Nil
  then show ?case by simp
next
  case (Cons q ps)
  show ?case
  proof (cases "fst q = 0")
    case True
    show ?thesis
    proof (cases "p = q")
      case True
      with \<open>fst q = 0\<close> show ?thesis by simp
    next
      case False
      with True Cons.prems(3) have "p \<in> set ps" by simp
      with Cons.prems(1) have "rank q \<le> rank p" by auto
      with True have "fst p \<le> 0" by (auto simp: rank_def)
      moreover have "0 \<le> fst p" using \<open>p \<in> set ps\<close> Cons.prems(2) by simp
      ultimately show ?thesis by simp
    qed
  next
    case False
    with Cons.prems(3) have "p \<in> set (dropWhile (\<lambda>p. fst p \<noteq> 0) ps)" by simp
    moreover from Cons.prems(1) have "sorted (map rank ps)" by simp
    ultimately show ?thesis using Cons.IH Cons.prems(2) by simp
  qed
qed

lemma ranked_takeWhile:
  assumes "\<And>p. p \<in> set ps \<Longrightarrow> 0 \<le> fst p"
  shows "takeWhile (\<lambda>p. fst p \<noteq> 0) (sort_key rank ps) = sort_key rank (filter (\<lambda>p. fst p \<noteq> 0) ps)"
proof -
  have "takeWhile (\<lambda>p. fst p \<noteq> 0) (sort_key rank ps) = filter (\<lambda>p. fst p \<noteq> 0) (sort_key rank ps)"
  proof (rule takeWhile_eq_filter)
    fix p assume "p \<in> set (dropWhile (\<lambda>p. fst p \<noteq> 0) (sort_key rank ps))"
    then have "fst p = 0"
      by (rule ranked_zero_tail [rotated 2]) (simp_all add: assms)
    then show "\<not> fst p \<noteq> 0" by simp
  qed
  then show ?thesis by (simp add: filter_sort)
qed

subsection \<open>The output loop\<close>

text \<open>The layout of a line: the names from index \<open>i\<close> on, each followed by its separator.\<close>

fun tabbed :: "nat \<Rightarrow> string list \<Rightarrow> string" where
  "tabbed i [] = []"
| "tabbed i (nm # rest) = nm @ (if i \<noteq> predict_max - 1 then [tab] else []) @ tabbed (i + 1) rest"

lemma emit_tabbed:
  "emit ps i = tabbed i (map snd (take (predict_max - i) (takeWhile (\<lambda>p. fst p \<noteq> 0) (drop i ps))))"
proof (induction ps i rule: emit.induct)
  case (1 ps i)
  show ?case
  proof (cases "i < length ps")
    case False
    then show ?thesis by (subst emit.simps) simp
  next
    case True
    then have d: "drop i ps = ps ! i # drop (Suc i) ps"
      by (simp add: Cons_nth_drop_Suc)
    show ?thesis
    proof (cases "fst (ps ! i) = 0 \<or> i \<ge> predict_max")
      case True
      with \<open>i < length ps\<close> show ?thesis
        by (subst emit.simps) (auto simp: d)
    next
      case False
      then have "predict_max - i = Suc (predict_max - (i + 1))" by arith
      with False True 1 show ?thesis
        by (subst emit.simps) (simp add: d)
    qed
  qed
qed


subsection \<open>The mutual counts\<close>

text \<open>
  In the words of the specification: \<open>mutual g u v\<close> is the number of third actors
  adjacent to both \<open>u\<close> and \<open>v\<close>; the candidates of a mode are the other actors that are
  (predict) or are not (recommend) adjacent to \<open>u\<close> and have a mutual count above 0; the
  answer is the first four of them, by falling count and then by rising name.
\<close>

definition mutual :: "int list list \<Rightarrow> nat \<Rightarrow> nat \<Rightarrow> nat" where
  "mutual g u v =
     length (filter (\<lambda>k. k \<noteq> u \<and> k \<noteq> v \<and> g ! u ! k = 1 \<and> g ! v ! k = 1) [0 ..< length g])"

definition candidates :: "int list list \<Rightarrow> bool \<Rightarrow> nat \<Rightarrow> nat list" where
  "candidates g neighbor u =
     filter (\<lambda>v. v \<noteq> u \<and> (g ! u ! v = 1) = neighbor \<and> 0 < mutual g u v) [0 ..< length g]"

definition top_ranked :: "int list list \<Rightarrow> string list \<Rightarrow> bool \<Rightarrow> nat \<Rightarrow> string list" where
  "top_ranked g i2n neighbor u =
     map (\<lambda>v. i2n ! v)
       (take 4 (sort_key (\<lambda>v. (- int (mutual g u v), i2n ! v)) (candidates g neighbor u)))"

lemma fold_add_at:
  "d < length mc \<Longrightarrow>
   fold (\<lambda>i mc. mc[d := mc ! d + f i]) xs mc = mc[d := mc ! d + sum_list (map f xs)]"
  by (induction xs arbitrary: mc) (simp_all add: add.assoc)

lemma fold_rows:
  "m \<le> length mc \<Longrightarrow> j < length mc \<Longrightarrow>
   length (fold (\<lambda>d mc. mc[d := mc ! d + F d]) [0 ..< m] mc) = length mc \<and>
   fold (\<lambda>d mc. mc[d := mc ! d + F d]) [0 ..< m] mc ! j = (if j < m then mc ! j + F j else mc ! j)"
  by (induction m) (auto simp: nth_list_update less_Suc_eq)

lemma mutual_counts_nth:
  assumes "d < length row"
  shows "mutual_counts g row ! d = sum_list (map (\<lambda>i. (g ! d ! i) AND (row ! i)) [0 ..< length row])"
proof -
  have inner: "fold (\<lambda>i mc. mc[dot_ind := mc ! dot_ind + ((g ! dot_ind ! i) AND (row ! i))])
                 [0 ..< length row] mc
               = mc[dot_ind := mc ! dot_ind
                     + sum_list (map (\<lambda>i. (g ! dot_ind ! i) AND (row ! i)) [0 ..< length row])]"
    if "dot_ind < length mc" for dot_ind and mc :: "int list"
    using that by (rule fold_add_at)
  let ?F = "\<lambda>d. sum_list (map (\<lambda>i. (g ! d ! i) AND (row ! i)) [0 ..< length row])"
  have outer: "fold (\<lambda>dot_ind mc.
                 fold (\<lambda>i mc. mc[dot_ind := mc ! dot_ind + ((g ! dot_ind ! i) AND (row ! i))])
                   [0 ..< length row] mc) xs mc
               = fold (\<lambda>d mc. mc[d := mc ! d + ?F d]) xs mc"
    if "\<forall>x \<in> set xs. x < length mc" for xs and mc :: "int list"
    using that
  proof (induction xs arbitrary: mc)
    case Nil
    then show ?case by simp
  next
    case (Cons x xs)
    then show ?case by (simp add: inner)
  qed
  have "mutual_counts g row = fold (\<lambda>d mc. mc[d := mc ! d + ?F d]) [0 ..< length row]
                                 (replicate (length row) 0)"
    unfolding mutual_counts_def by (rule outer) simp
  with fold_rows [of "length row" "replicate (length row) 0" d ?F] assms
  show ?thesis by simp
qed

lemma length_mutual_counts: "length (mutual_counts g row) = length row"
proof -
  have "length (fold (\<lambda>dot_ind mc.
                 fold (\<lambda>i mc. mc[dot_ind := mc ! dot_ind + ((g ! dot_ind ! i) AND (row ! i))]) ys mc)
               xs mc) = length mc" for xs ys and mc :: "int list"
  proof (induction xs arbitrary: mc)
    case Nil
    then show ?case by simp
  next
    case (Cons x xs)
    have "length (fold (\<lambda>i mc. mc[x := mc ! x + ((g ! x ! i) AND (row ! i))]) ys mc) = length mc"
      for mc :: "int list"
      by (induction ys arbitrary: mc) simp_all
    with Cons show ?case by simp
  qed
  then show ?thesis by (simp add: mutual_counts_def)
qed

lemma sum_list_indicator:
  "sum_list (map (\<lambda>i. if P i then 1 else 0) xs) = int (length (filter P xs))"
  by (induction xs) simp_all

lemma and_bit: "(x = 0 \<or> x = 1) \<Longrightarrow> (y = 0 \<or> y = 1) \<Longrightarrow>
    (x :: int) AND y = (if x = 1 \<and> y = 1 then 1 else 0)"
  by auto

lemma mutual_counts_mutual:
  assumes "no_loops n g" and "u < n" and "v < n"
  shows "mutual_counts g (g ! u) ! v = int (mutual g u v)"
proof -
  from assms(1) have adj: "adjacency n g" and diag: "\<And>i. i < n \<Longrightarrow> g ! i ! i = 0"
    by (simp_all add: no_loops_def)
  from adj assms(2) have len: "length g = n" "length (g ! u) = n"
    by (simp_all add: adjacency_def square_def)
  have bit: "g ! i ! j = 0 \<or> g ! i ! j = 1" if "i < n" "j < n" for i j
    using adj that by (simp add: adjacency_def)
  have eq: "map (\<lambda>i. (g ! v ! i) AND (g ! u ! i)) [0 ..< n]
        = map (\<lambda>i. if g ! u ! i = 1 \<and> g ! v ! i = 1 then 1 else 0) [0 ..< n]"
    using bit assms(2,3) by (auto simp: and_bit)
  have third: "filter (\<lambda>i. g ! u ! i = 1 \<and> g ! v ! i = 1) [0 ..< n]
        = filter (\<lambda>k. k \<noteq> u \<and> k \<noteq> v \<and> g ! u ! k = 1 \<and> g ! v ! k = 1) [0 ..< n]"
  proof (rule filter_cong [OF refl])
    fix k assume "k \<in> set [0 ..< n]"
    show "(g ! u ! k = 1 \<and> g ! v ! k = 1) = (k \<noteq> u \<and> k \<noteq> v \<and> g ! u ! k = 1 \<and> g ! v ! k = 1)"
      using diag [OF assms(2)] diag [OF assms(3)] by auto
  qed
  have "mutual_counts g (g ! u) ! v = sum_list (map (\<lambda>i. (g ! v ! i) AND (g ! u ! i)) [0 ..< n])"
    using mutual_counts_nth [of v "g ! u" g] assms(3) len by simp
  also have "\<dots> = sum_list (map (\<lambda>i. if g ! u ! i = 1 \<and> g ! v ! i = 1 then 1 else 0) [0 ..< n])"
    by (simp only: eq)
  also have "\<dots> = int (length (filter (\<lambda>i. g ! u ! i = 1 \<and> g ! v ! i = 1) [0 ..< n]))"
    by (rule sum_list_indicator)
  also have "\<dots> = int (mutual g u v)"
    by (simp only: third mutual_def len)
  finally show ?thesis .
qed

lemma collect_predicts_filter:
  "collect_predicts neighbor row mc i2n
     = map (\<lambda>i. (mc ! i, i2n ! i))
         (filter (\<lambda>i. row ! i = (if neighbor then 1 else 0)) [0 ..< length row])"
proof -
  have "fold (\<lambda>i predicts. if P i then predicts @ [h i] else predicts) xs acc
          = acc @ map h (filter P xs)"
    for P and h :: "nat \<Rightarrow> int \<times> string" and xs acc
    by (induction xs arbitrary: acc) simp_all
  then show ?thesis by (simp add: collect_predicts_def)
qed


subsection \<open>The line of one target actor\<close>

lemma id_of_subscript: "id_of (snd (subscript n2i a 0)) b = id_of n2i b"
proof (cases "map_of n2i a")
  case None
  then show ?thesis
    by (cases "map_of n2i b"; cases "b = a")
       (simp_all add: id_of_def subscript_def map_add_def)
next
  case (Some i)
  then show ?thesis by (simp add: id_of_def subscript_def)
qed

lemma interactions_of_ranked:
  assumes g: "no_loops (length (int_to_name st)) (graph st)"
    and u: "id_of (name_to_int st) actor < length (int_to_name st)"
  shows "interactions_of neighbor actor st =
           Inr (tabbed 0 (top_ranked (graph st) (int_to_name st) neighbor
                            (id_of (name_to_int st) actor)) @ [newline],
                st\<lparr>name_to_int := snd (subscript (name_to_int st) actor 0)\<rparr>)"
proof -
  let ?g = "graph st" and ?i2n = "int_to_name st" and ?n2i = "name_to_int st"
  let ?n = "length ?i2n"
  let ?u = "id_of ?n2i actor"
  let ?row = "?g ! ?u"
  let ?b = "if neighbor then 1 else 0 :: int"
  let ?mc = "(mutual_counts ?g ?row)[?u := 0]"
  let ?h = "\<lambda>i. (?mc ! i, ?i2n ! i)"
  let ?key = "\<lambda>v. (- int (mutual ?g ?u v), ?i2n ! v)"
  from g have adj: "adjacency ?n ?g" by (simp add: no_loops_def)
  have fst_sub: "fst (subscript ?n2i actor 0) = ?u"
    by (simp add: id_of_def)
  from adj have len: "length ?g = ?n" "length ?row = ?n"
    using u by (simp_all add: adjacency_def square_def)
  have bit: "?g ! i ! j = 0 \<or> ?g ! i ! j = 1" if "i < ?n" "j < ?n" for i j
    using adj that by (simp add: adjacency_def)
  have mc: "?mc ! v = (if v = ?u then 0 else int (mutual ?g ?u v))" if "v < ?n" for v
    using that u mutual_counts_mutual [OF g u that]
    by (simp add: nth_list_update length_mutual_counts len)
  let ?ps = "collect_predicts neighbor ?row ?mc ?i2n"
  have ps: "?ps = map ?h (filter (\<lambda>i. ?row ! i = ?b) [0 ..< ?n])"
    by (simp add: collect_predicts_filter len)
  have nonneg: "0 \<le> fst p" if "p \<in> set ?ps" for p
    using that mc by (auto simp: ps)
  have cand: "filter (\<lambda>i. fst (?h i) \<noteq> 0) (filter (\<lambda>i. ?row ! i = ?b) [0 ..< ?n])
                = candidates ?g neighbor ?u"
    unfolding candidates_def len filter_filter
  proof (rule filter_cong [OF refl])
    fix v assume "v \<in> set [0 ..< ?n]"
    then have v: "v < ?n" by simp
    from bit [OF u v] have "(?row ! v = ?b) = ((?g ! ?u ! v = 1) = neighbor)"
      by auto
    with mc [OF v]
    show "(?row ! v = ?b \<and> fst (?h v) \<noteq> 0)
            = (v \<noteq> ?u \<and> (?g ! ?u ! v = 1) = neighbor \<and> 0 < mutual ?g ?u v)"
      by auto
  qed
  have "takeWhile (\<lambda>p. fst p \<noteq> 0) (sort_by compare ?ps)
          = sort_key rank (filter (\<lambda>p. fst p \<noteq> 0) ?ps)"
    unfolding sort_by_compare using nonneg by (rule ranked_takeWhile)
  also have "filter (\<lambda>p. fst p \<noteq> 0) ?ps = map ?h (candidates ?g neighbor ?u)"
    unfolding ps filter_map comp_def cand ..
  also have "sort_key rank (map ?h (candidates ?g neighbor ?u))
               = map ?h (sort_key (\<lambda>v. rank (?h v)) (candidates ?g neighbor ?u))"
    by (rule sort_key_map)
  also have "sort_key (\<lambda>v. rank (?h v)) (candidates ?g neighbor ?u)
               = sort_key ?key (candidates ?g neighbor ?u)"
  proof (rule sort_key_cong_set)
    fix v assume "v \<in> set (candidates ?g neighbor ?u)"
    then have v: "v < ?n" "v \<noteq> ?u" by (simp_all add: candidates_def len)
    from mc [OF v(1)] v(2) show "rank (?h v) = ?key v" by (simp add: rank_def)
  qed
  finally have "map snd (take predict_max (takeWhile (\<lambda>p. fst p \<noteq> 0) (sort_by compare ?ps)))
                  = top_ranked ?g ?i2n neighbor ?u"
    by (simp add: top_ranked_def predict_max_def take_map comp_def)
  then have "emit (sort_by compare ?ps) 0 = tabbed 0 (top_ranked ?g ?i2n neighbor ?u)"
    by (simp add: emit_tabbed)
  moreover have "id_of (snd (subscript ?n2i actor 0)) actor = ?u"
    by (rule id_of_subscript)
  ultimately show ?thesis
    using u by (simp add: interactions_of_def fst_sub len Let_def)
qed

lemma top_ranked_others:
  assumes "adjacency (length i2n) g" and "distinct i2n" and "u < length i2n"
  shows "i2n ! u \<notin> set (top_ranked g i2n neighbor u)"
proof
  assume "i2n ! u \<in> set (top_ranked g i2n neighbor u)"
  then obtain v where v: "v \<in> set (candidates g neighbor u)" "i2n ! v = i2n ! u"
    by (auto simp: top_ranked_def dest: in_set_takeD)
  from assms(1) have "length g = length i2n"
    by (simp add: adjacency_def square_def)
  with v(1) have "v < length i2n" "v \<noteq> u"
    by (simp_all add: candidates_def)
  with v(2) assms(2,3) show False
    by (simp add: nth_eq_iff_index_eq)
qed

text \<open>
  The loop over the targets. A target that is not in the registry gets the id 0 and an
  entry in \<^verbatim>\<open>name_to_int\<close>; the ids of all names stay what they were.
\<close>

lemma interactions_loop_ranked:
  assumes "no_loops (length (int_to_name st)) (graph st)"
    and "\<forall>a \<in> set targets. id_of (name_to_int st) a < length (int_to_name st)"
  shows "\<exists>st'. interactions_loop neighbor targets (out, st) =
      Inr (out @ concat (map (\<lambda>a. tabbed 0 (top_ranked (graph st) (int_to_name st) neighbor
                                              (id_of (name_to_int st) a)) @ [newline]) targets), st') \<and>
      graph st' = graph st \<and> int_to_name st' = int_to_name st \<and> actors st' = actors st"
  using assms
proof (induction targets arbitrary: out st)
  case Nil
  then show ?case by simp
next
  case (Cons a targets)
  let ?st1 = "st\<lparr>name_to_int := snd (subscript (name_to_int st) a 0)\<rparr>"
  let ?line = "tabbed 0 (top_ranked (graph st) (int_to_name st) neighbor
                           (id_of (name_to_int st) a)) @ [newline]"
  from Cons.prems have one: "interactions_of neighbor a st = Inr (?line, ?st1)"
    by (intro interactions_of_ranked) simp_all
  have ids: "id_of (name_to_int ?st1) b = id_of (name_to_int st) b" for b
    by (simp add: id_of_subscript)
  from Cons.prems have "no_loops (length (int_to_name ?st1)) (graph ?st1)"
    and "\<forall>b \<in> set targets. id_of (name_to_int ?st1) b < length (int_to_name ?st1)"
    by (simp_all add: id_of_subscript)
  from Cons.IH [OF this, of "out @ ?line"] obtain st' where
    "interactions_loop neighbor targets (out @ ?line, ?st1) =
       Inr ((out @ ?line) @ concat (map (\<lambda>a. tabbed 0 (top_ranked (graph ?st1) (int_to_name ?st1)
               neighbor (id_of (name_to_int ?st1) a)) @ [newline]) targets), st')"
    "graph st' = graph ?st1" "int_to_name st' = int_to_name ?st1" "actors st' = actors ?st1"
    by blast
  with one show ?case
    by (simp add: id_of_subscript)
qed

lemma BuildStructures_built:
  assumes "BuildStructures tsv_file actors_file = Inr st"
  shows "\<exists>m. read_tsv (tl tsv_file) ([], [], []) = Inr (name_to_int st, int_to_name st, m) \<and>
             graph st = connect_all (name_to_int st) m
                          (replicate (length (int_to_name st)) (replicate (length (int_to_name st)) 0)) \<and>
             actors st = tl actors_file"
  using assms by (auto simp: BuildStructures_def split: sum.splits)

lemma BuildStructures_ok:
  assumes "BuildStructures tsv_file actors_file = Inr st"
  shows "adjacency (length (int_to_name st)) (graph st)"
    and "registry (name_to_int st) (int_to_name st)"
proof -
  from BuildStructures_built [OF assms] obtain m where
    m: "read_tsv (tl tsv_file) ([], [], []) = Inr (name_to_int st, int_to_name st, m)"
       "graph st = connect_all (name_to_int st) m
          (replicate (length (int_to_name st)) (replicate (length (int_to_name st)) 0))"
    by blast
  from read_tsv_ok [OF m(1)] show "registry (name_to_int st) (int_to_name st)" by simp
  from read_tsv_ok [OF m(1)] show "adjacency (length (int_to_name st)) (graph st)"
    unfolding m(2) by (intro connect_all_adjacency)
qed

lemma registry_id_bound:
  assumes "registry n2i i2n" and "i2n \<noteq> []"
  shows "id_of n2i a < length i2n"
proof (cases "map_of n2i a")
  case None
  with assms(2) show ?thesis by (simp add: id_of_def subscript_def)
next
  case (Some i)
  with assms(1) have "i < length i2n" by (simp add: registry_def)
  with Some show ?thesis by (simp add: id_of_def subscript_def)
qed

text \<open>
  On a matrix without self-loops the link scorer is right, whatever the targets: after
  the header there is one line per target, with the names of the candidates of the mode
  that have a third actor in common with the target, cut to the first four in the order
  of falling mutual count and, among equal counts, rising name. A target of the
  registry is never in its own line. (A target that is not in the registry is answered
  as the actor of id 0; with an empty registry the first target reads a row that does
  not exist.)
\<close>

lemma FindInteractions_ranked:
  assumes "BuildStructures tsv_file actors_file = Inr st"
    and "\<forall>i < length (graph st). graph st ! i ! i = 0"
    and "int_to_name st \<noteq> []"
  shows "(\<exists>st'. FindInteractions neighbor st =
           Inr (''Actor1,Actor2,Actor3,Actor4'' @ [newline] @
                concat (map (\<lambda>a. tabbed 0 (top_ranked (graph st) (int_to_name st) neighbor
                                             (id_of (name_to_int st) a)) @ [newline])
                            (actors st)), st') \<and>
           graph st' = graph st \<and> int_to_name st' = int_to_name st) \<and>
         (\<forall>a \<in> set (int_to_name st).
            int_to_name st ! id_of (name_to_int st) a = a \<and>
            a \<notin> set (top_ranked (graph st) (int_to_name st) neighbor (id_of (name_to_int st) a)))"
proof -
  note ok = BuildStructures_ok [OF assms(1)]
  from ok(1) have len: "length (graph st) = length (int_to_name st)"
    by (simp add: adjacency_def square_def)
  from ok(1) assms(2) have g: "no_loops (length (int_to_name st)) (graph st)"
    by (simp add: no_loops_def len)
  have "\<forall>a \<in> set (actors st). id_of (name_to_int st) a < length (int_to_name st)"
    using registry_id_bound [OF ok(2) assms(3)] by simp
  from interactions_loop_ranked [OF g this, of neighbor "''Actor1,Actor2,Actor3,Actor4'' @ [newline]"]
  have lines: "\<exists>st'. FindInteractions neighbor st =
           Inr (''Actor1,Actor2,Actor3,Actor4'' @ [newline] @
                concat (map (\<lambda>a. tabbed 0 (top_ranked (graph st) (int_to_name st) neighbor
                                             (id_of (name_to_int st) a)) @ [newline])
                            (actors st)), st') \<and>
           graph st' = graph st \<and> int_to_name st' = int_to_name st"
    by (auto simp: FindInteractions_def)
  have "int_to_name st ! id_of (name_to_int st) a = a \<and>
        a \<notin> set (top_ranked (graph st) (int_to_name st) neighbor (id_of (name_to_int st) a))"
    if a: "a \<in> set (int_to_name st)" for a
  proof -
    from registry_id_of [OF ok(2) a] top_ranked_others [OF ok(1), of "id_of (name_to_int st) a" neighbor]
      ok(2)
    show ?thesis by (auto simp: registry_def)
  qed
  with lines show ?thesis by blast
qed

subsection \<open>The projected matrix\<close>

text \<open>
  The predictor and the popularity finder build the same square matrix, and it is
  symmetric, for every dataset whose records have three or more fields.
\<close>

lemma projected_matrix_symmetric:
  assumes "BuildStructures tsv_file actors_file = Inr st"
  shows "(\<exists>pst. BuildStructures_pop tsv_file = Inr pst \<and> graph pst = graph st) \<and>
         length (graph st) = length (int_to_name st) \<and>
         (\<forall>i < length (graph st). \<forall>j < length (graph st). graph st ! i ! j = graph st ! j ! i)"
proof -
  let ?n = "length (int_to_name st)"
  from BuildStructures_built [OF assms] obtain m where
    m: "read_tsv (tl tsv_file) ([], [], []) = Inr (name_to_int st, int_to_name st, m)"
       "graph st = connect_all (name_to_int st) m (replicate ?n (replicate ?n 0))"
    by blast
  have pop: "\<exists>pst. BuildStructures_pop tsv_file = Inr pst \<and> graph pst = graph st"
    by (simp add: BuildStructures_pop_def m Let_def)
  from BuildStructures_ok(1) [OF assms] have adj: "adjacency ?n (graph st)" .
  then have len: "length (graph st) = ?n"
    by (simp add: adjacency_def square_def)
  from adj have sym: "\<forall>i < ?n. \<forall>j < ?n. graph st ! i ! j = graph st ! j ! i"
    by (simp add: adjacency_def)
  from pop len sym show ?thesis by simp
qed

section \<open>The core decomposer\<close>

text \<open>
  In the words of the specification: the degree of a vertex among a set of survivors
  counts its neighbours among the other members, and a set is closed for \<open>k\<close> when
  every member has at least \<open>k\<close> such neighbours. The \<open>k\<close>-core is the largest closed set.
\<close>

definition degree_in :: "int list list \<Rightarrow> nat set \<Rightarrow> nat \<Rightarrow> nat" where
  "degree_in g S i = card {j \<in> S. j \<noteq> i \<and> g ! i ! j \<noteq> 0}"

definition k_closed :: "int list list \<Rightarrow> int \<Rightarrow> nat set \<Rightarrow> bool" where
  "k_closed g k S \<longleftrightarrow> (\<forall>i \<in> S. k \<le> int (degree_in g S i))"

subsection \<open>One pass\<close>

definition removable :: "int \<Rightarrow> int list \<Rightarrow> nat \<Rightarrow> bool" where
  "removable k c i \<longleftrightarrow> c ! i < k \<and> - int (length c) < c ! i"

lemma prune_vertex_cases:
  "prune_vertex k g i s =
     (if removable k (fst s) i
      then ((dec_neighbours g i (length (fst s)) (fst s))[i := - int (length (fst s))], True)
      else s)"
  by (simp add: removable_def prune_vertex_fire prune_vertex_skip)

lemma prune_pass_Suc:
  "fold (prune_vertex k g) [0 ..< Suc m] s = prune_vertex k g m (fold (prune_vertex k g) [0 ..< m] s)"
  by simp

lemma prune_pass_unchanged:
  "\<not> snd (fold (prune_vertex k g) [0 ..< m] (c, False)) \<Longrightarrow>
   fst (fold (prune_vertex k g) [0 ..< m] (c, False)) = c \<and> (\<forall>i < m. \<not> removable k c i)"
proof (induction m)
  case 0
  then show ?case by simp
next
  case (Suc m)
  define s where "s = fold (prune_vertex k g) [0 ..< m] (c, False)"
  have step: "fold (prune_vertex k g) [0 ..< Suc m] (c, False) = prune_vertex k g m s"
    by (simp add: s_def)
  from Suc.prems have nd': "\<not> snd (prune_vertex k g m s)"
    unfolding step .
  have skip: "\<not> removable k (fst s) m"
  proof
    assume "removable k (fst s) m"
    then have "prune_vertex k g m s =
        ((dec_neighbours g m (length (fst s)) (fst s))[m := - int (length (fst s))], True)"
      by (simp add: removable_def prune_vertex_fire)
    then have "snd (prune_vertex k g m s)" by simp
    with nd' show False by simp
  qed
  then have same: "prune_vertex k g m s = s"
    by (simp add: removable_def prune_vertex_skip)
  with nd' have "\<not> snd s" by simp
  then have IH: "fst s = c" "\<forall>i < m. \<not> removable k c i"
    using Suc.IH by (simp_all add: s_def)
  with skip have "\<forall>i < Suc m. \<not> removable k c i"
    by (simp add: less_Suc_eq)
  with IH(1) same show ?case
    unfolding step by simp
qed

lemma prune_pass_done:
  assumes "\<not> snd (prune_pass k g c)"
  shows "fst (prune_pass k g c) = c" and "\<And>i. i < length c \<Longrightarrow> \<not> removable k c i"
  using prune_pass_unchanged [of k g "length c" c] assms
  by (simp_all add: prune_pass_def)

subsection \<open>The invariant of the peeling\<close>

definition peeled :: "nat \<Rightarrow> int list list \<Rightarrow> int \<Rightarrow> int list \<Rightarrow> bool" where
  "peeled n g k c \<longleftrightarrow>
     length c = n \<and>
     (\<forall>i \<in> alive c. c ! i = int (degree_in g (alive c) i)) \<and>
     (\<forall>i < n. i \<notin> alive c \<longrightarrow> c ! i < k) \<and>
     (\<forall>H. H \<subseteq> {..< n} \<and> k_closed g k H \<longrightarrow> H \<subseteq> alive c)"

lemma alive_subset: "alive c \<subseteq> {..< length c}"
  by (auto simp: alive_def)

lemma degree_in_mono:
  assumes "H \<subseteq> S" and "finite S"
  shows "degree_in g H i \<le> degree_in g S i"
  unfolding degree_in_def
  by (rule card_mono) (use assms in auto)

lemma degree_in_remove:
  assumes "finite S" and "i \<in> S" and "j \<noteq> i"
  shows "int (degree_in g (S - {i}) j) = int (degree_in g S j) - (if g ! j ! i \<noteq> 0 then 1 else 0)"
proof (cases "g ! j ! i \<noteq> 0")
  case True
  define A where "A = {x \<in> S - {i}. x \<noteq> j \<and> g ! j ! x \<noteq> 0}"
  have S: "{x \<in> S. x \<noteq> j \<and> g ! j ! x \<noteq> 0} = insert i A"
    using assms True by (auto simp: A_def)
  have "i \<notin> A" by (simp add: A_def)
  moreover have "finite A"
    using assms(1) by (simp add: A_def)
  ultimately have "card (insert i A) = Suc (card A)"
    by (rule card_insert_disjoint [rotated])
  then have "degree_in g S j = Suc (degree_in g (S - {i}) j)"
    by (simp add: degree_in_def S) (simp add: A_def)
  with True show ?thesis by simp
next
  case False
  then have "{x \<in> S. x \<noteq> j \<and> g ! j ! x \<noteq> 0} = {x \<in> S - {i}. x \<noteq> j \<and> g ! j ! x \<noteq> 0}"
    by auto
  with False show ?thesis by (simp add: degree_in_def)
qed

lemma peeled_remove:
  assumes inv: "peeled n g k c" and g: "no_loops n g" and i: "i < n" and rem: "removable k c i"
  shows "peeled n g k ((dec_neighbours g i n c)[i := - int n])"
proof -
  define c' where "c' = (dec_neighbours g i n c)[i := - int n]"
  from inv have len: "length c = n" by (simp add: peeled_def)
  from rem i len have ai: "i \<in> alive c" and lt: "c ! i < k" "- int n < c ! i"
    by (simp_all add: removable_def alive_def)
  have sym: "g ! a ! b = g ! b ! a" if "a < n" "b < n" for a b
    using g that by (simp add: no_loops_def adjacency_def)
  have count: "c ! j = int (degree_in g (alive c) j)" if "j \<in> alive c" for j
    using inv that by (simp add: peeled_def)
  have nth: "c' ! j = (if j = i then - int n else if g ! i ! j \<noteq> 0 then c ! j - 1 else c ! j)"
    if "j < n" for j
    using that i len by (simp add: c'_def nth_list_update dec_neighbours_nth)
  have len': "length c' = n" by (simp add: c'_def len)
  have mem: "j \<in> alive c \<longleftrightarrow> j < n \<and> - int n < c ! j" for j
    by (simp add: alive_def len)
  have mem': "j \<in> alive c' \<longleftrightarrow> j < n \<and> - int n < c' ! j" for j
    by (simp add: alive_def len')
  have fin: "finite (alive c)" by simp
  have adjacent_pos: "1 \<le> c ! j" if "j \<in> alive c" "j \<noteq> i" "g ! i ! j \<noteq> 0" for j
  proof -
    from that(1) have jn: "j < n" by (simp add: mem)
    have "i \<in> {x \<in> alive c. x \<noteq> j \<and> g ! j ! x \<noteq> 0}"
      using ai that(2,3) sym [OF i jn] by simp
    then have "{x \<in> alive c. x \<noteq> j \<and> g ! j ! x \<noteq> 0} \<noteq> {}" by blast
    then have "0 < degree_in g (alive c) j"
      unfolding degree_in_def using fin by (simp add: card_gt_0_iff)
    with count [OF that(1)] show ?thesis by simp
  qed
  have alive': "alive c' = alive c - {i}"
  proof (intro set_eqI iffI)
    fix j assume "j \<in> alive c'"
    then have j: "j < n" "- int n < c' ! j"
      by (simp_all add: mem')
    from j(2) nth [OF j(1)] have "j \<noteq> i" "- int n < c ! j"
      by (auto split: if_splits)
    with j(1) show "j \<in> alive c - {i}" by (simp add: mem)
  next
    fix j assume "j \<in> alive c - {i}"
    then have j: "j \<in> alive c" "j \<noteq> i" by simp_all
    then have jn: "j < n" "- int n < c ! j" by (simp_all add: mem)
    have "- int n < c' ! j"
    proof (cases "g ! i ! j \<noteq> 0")
      case True
      from adjacent_pos [OF j True] have "1 \<le> c ! j" .
      with True j(2) i show ?thesis by (simp add: nth [OF jn(1)])
    next
      case False
      with j(2) jn(2) show ?thesis by (simp add: nth [OF jn(1)])
    qed
    with jn(1) show "j \<in> alive c'" by (simp add: mem')
  qed
  have count': "c' ! j = int (degree_in g (alive c') j)" if "j \<in> alive c'" for j
  proof -
    from that alive' have j: "j \<in> alive c" "j \<noteq> i" by simp_all
    then have jn: "j < n" by (simp add: mem)
    have "int (degree_in g (alive c - {i}) j)
            = int (degree_in g (alive c) j) - (if g ! j ! i \<noteq> 0 then 1 else 0)"
      using fin ai j(2) by (rule degree_in_remove)
    with count [OF j(1)] j(2) sym [OF i jn] show ?thesis
      by (simp add: alive' nth [OF jn])
  qed
  have dead': "c' ! j < k" if "j < n" "j \<notin> alive c'" for j
  proof (cases "j = i")
    case True
    from nth [OF i] have "c' ! i = - int n" by simp
    with lt True show ?thesis by simp
  next
    case False
    with that alive' have "j \<notin> alive c" by simp
    with inv that(1) have "c ! j < k" by (simp add: peeled_def)
    with False show ?thesis by (simp add: nth [OF that(1)])
  qed
  have core': "H \<subseteq> alive c'" if H: "H \<subseteq> {..< n}" "k_closed g k H" for H
  proof -
    from inv H have sub: "H \<subseteq> alive c" by (simp add: peeled_def)
    have "i \<notin> H"
    proof
      assume "i \<in> H"
      with H(2) have "k \<le> int (degree_in g H i)" by (simp add: k_closed_def)
      also have "\<dots> \<le> int (degree_in g (alive c) i)"
        using degree_in_mono [OF sub fin] by simp
      also have "\<dots> = c ! i" using count [OF ai] by simp
      finally show False using lt(1) by simp
    qed
    with sub alive' show ?thesis by auto
  qed
  have "peeled n g k c'"
    unfolding peeled_def
  proof (intro conjI ballI allI impI)
    show "length c' = n" by (rule len')
  next
    fix j assume "j \<in> alive c'"
    then show "c' ! j = int (degree_in g (alive c') j)" by (rule count')
  next
    fix j assume "j < n" "j \<notin> alive c'"
    then show "c' ! j < k" by (rule dead')
  next
    fix H assume "H \<subseteq> {..< n} \<and> k_closed g k H"
    then show "H \<subseteq> alive c'" using core' by blast
  qed
  then show ?thesis by (simp only: c'_def)
qed

lemma peeled_prune_vertex:
  assumes "peeled n g k (fst s)" and "no_loops n g" and "i < n"
  shows "peeled n g k (fst (prune_vertex k g i s))"
proof (cases "removable k (fst s) i")
  case True
  from assms(1) have "length (fst s) = n" by (simp add: peeled_def)
  with peeled_remove [OF assms True] True show ?thesis
    by (simp add: prune_vertex_cases)
next
  case False
  with assms(1) show ?thesis by (simp add: prune_vertex_cases)
qed

lemma peeled_prune_pass:
  assumes "peeled n g k c" and "no_loops n g"
  shows "peeled n g k (fst (prune_pass k g c))"
proof -
  from assms(1) have len: "length c = n" by (simp add: peeled_def)
  have "peeled n g k (fst (fold (prune_vertex k g) [0 ..< n] (c, False)))"
    by (rule fold_invariant [where Q = "\<lambda>i. i < n" and P = "\<lambda>s. peeled n g k (fst s)"])
       (simp_all add: assms peeled_prune_vertex)
  then show ?thesis by (simp add: prune_pass_def len)
qed

lemma peeled_prune:
  "peeled n g k c \<Longrightarrow> no_loops n g \<Longrightarrow>
   peeled n g k (prune k g c) \<and> (\<forall>i < n. \<not> removable k (prune k g c) i)"
proof (induction k g c rule: prune.induct)
  case (1 k g c)
  from "1.prems" have len: "length c = n" by (simp add: peeled_def)
  show ?case
  proof (cases "snd (prune_pass k g c)")
    case True
    then have eq: "prune k g c = prune k g (fst (prune_pass k g c))"
      by (subst prune.simps) simp
    from "1.IH" [OF True peeled_prune_pass [OF "1.prems"] "1.prems"(2)] show ?thesis
      unfolding eq .
  next
    case False
    then have eq: "prune k g c = fst (prune_pass k g c)"
      by (subst prune.simps) simp
    from prune_pass_done [OF False] "1.prems"(1) len show ?thesis
      unfolding eq by simp
  qed
qed

subsection \<open>The first counts\<close>

lemma row_sums_nth:
  assumes "length g = n" and "i < n"
  shows "length (row_sums g n) = n" and "row_sums g n ! i = sum_list (map (\<lambda>j. g ! i ! j) [0 ..< n])"
proof -
  let ?F = "\<lambda>i. sum_list (map (\<lambda>j. g ! i ! j) [0 ..< n])"
  have outer: "fold (\<lambda>i c. fold (\<lambda>j c. c[i := c ! i + g ! i ! j]) [0 ..< n] c) xs c
               = fold (\<lambda>i c. c[i := c ! i + ?F i]) xs c"
    if "\<forall>x \<in> set xs. x < length c" for xs and c :: "int list"
    using that
  proof (induction xs arbitrary: c)
    case Nil
    then show ?case by simp
  next
    case (Cons x xs)
    then show ?case by (simp add: fold_add_at)
  qed
  have eq: "row_sums g n = fold (\<lambda>i c. c[i := c ! i + ?F i]) [0 ..< n] (replicate n 0)"
    unfolding row_sums_def assms(1) by (rule outer) simp
  from fold_rows [of n "replicate n 0" i ?F] assms(2)
  show "length (row_sums g n) = n" and "row_sums g n ! i = ?F i"
    by (simp_all add: eq)
qed

lemma length_filter_card: "length (filter P [0 ..< n]) = card {j. j < n \<and> P j}"
proof -
  have "set (filter P [0 ..< n]) = {j. j < n \<and> P j}" by auto
  moreover have "distinct (filter P [0 ..< n])" by simp
  ultimately show ?thesis by (metis distinct_card)
qed

lemma row_sums_degree:
  assumes "no_loops n g" and "i < n"
  shows "row_sums g n ! i = int (degree_in g {..< n} i)"
proof -
  from assms(1) have len: "length g = n"
    by (simp add: no_loops_def adjacency_def square_def)
  have bit: "g ! i ! j = 0 \<or> g ! i ! j = 1" if "j < n" for j
    using assms that by (simp add: no_loops_def adjacency_def)
  have diag: "g ! i ! i = 0"
    using assms by (simp add: no_loops_def)
  have "map (\<lambda>j. g ! i ! j) [0 ..< n] = map (\<lambda>j. if g ! i ! j \<noteq> 0 then 1 else 0) [0 ..< n]"
    using bit by force
  then have "row_sums g n ! i = sum_list (map (\<lambda>j. if g ! i ! j \<noteq> 0 then 1 else 0) [0 ..< n])"
    using row_sums_nth(2) [OF len assms(2)] by (simp only:)
  also have "\<dots> = int (length (filter (\<lambda>j. g ! i ! j \<noteq> 0) [0 ..< n]))"
    by (rule sum_list_indicator)
  also have "\<dots> = int (card {j. j < n \<and> g ! i ! j \<noteq> 0})"
    by (simp only: length_filter_card)
  also have "{j. j < n \<and> g ! i ! j \<noteq> 0} = {j \<in> {..< n}. j \<noteq> i \<and> g ! i ! j \<noteq> 0}"
    using diag by auto
  finally show ?thesis by (simp add: degree_in_def)
qed

lemma length_row_sums: "length (row_sums g n) = n"
proof -
  have "length (fold (\<lambda>i c. fold (\<lambda>j c. c[i := c ! i + g ! i ! j]) ys c) xs c) = length c"
    for xs ys and c :: "int list"
  proof (induction xs arbitrary: c)
    case Nil
    then show ?case by simp
  next
    case (Cons x xs)
    have "length (fold (\<lambda>j c. c[x := c ! x + g ! x ! j]) ys c) = length c" for c :: "int list"
      by (induction ys arbitrary: c) simp_all
    with Cons show ?case by simp
  qed
  then show ?thesis by (simp add: row_sums_def)
qed

lemma peeled_row_sums:
  assumes "no_loops n g"
  shows "peeled n g k (row_sums g n)"
proof -
  have al: "alive (row_sums g n) = {..< n}"
    using row_sums_degree [OF assms] by (auto simp: alive_def length_row_sums)
  show ?thesis
    unfolding peeled_def al using row_sums_degree [OF assms] by (auto simp: length_row_sums)
qed

subsection \<open>The output of the popularity finder\<close>

lemma BuildStructures_pop_built:
  assumes "BuildStructures_pop tsv_file = Inr st"
  shows "\<exists>m. read_tsv (tl tsv_file) ([], [], []) = Inr (name_to_int st, int_to_name st, m) \<and>
             graph st = connect_all (name_to_int st) m
                          (replicate (length (int_to_name st)) (replicate (length (int_to_name st)) 0)) \<and>
             counts st = row_sums (graph st) (length (int_to_name st))"
  using assms by (auto simp: BuildStructures_pop_def Let_def split: sum.splits)

lemma BuildStructures_pop_ok:
  assumes "BuildStructures_pop tsv_file = Inr st"
  shows "adjacency (length (int_to_name st)) (graph st)"
    and "registry (name_to_int st) (int_to_name st)"
    and "counts st = row_sums (graph st) (length (int_to_name st))"
proof -
  from BuildStructures_pop_built [OF assms] obtain m where
    m: "read_tsv (tl tsv_file) ([], [], []) = Inr (name_to_int st, int_to_name st, m)"
       "graph st = connect_all (name_to_int st) m
          (replicate (length (int_to_name st)) (replicate (length (int_to_name st)) 0))"
       "counts st = row_sums (graph st) (length (int_to_name st))"
    by blast
  from read_tsv_ok [OF m(1)] show "registry (name_to_int st) (int_to_name st)" by simp
  from read_tsv_ok [OF m(1)] show "adjacency (length (int_to_name st)) (graph st)"
    unfolding m(2) by (intro connect_all_adjacency)
  show "counts st = row_sums (graph st) (length (int_to_name st))" by fact
qed

lemma length_prune: "length (prune k g c) = length c"
proof (induction k g c rule: prune.induct)
  case (1 k g c)
  have len: "length (fst (prune_pass k g c)) = length c"
    using shrunk_prune_pass [of c k g] by (simp add: shrunk_def)
  show ?case
  proof (cases "snd (prune_pass k g c)")
    case True
    then have "prune k g c = prune k g (fst (prune_pass k g c))"
      by (subst prune.simps) simp
    with "1.IH" [OF True] len show ?thesis by simp
  next
    case False
    then have "prune k g c = fst (prune_pass k g c)"
      by (subst prune.simps) simp
    with len show ?thesis by simp
  qed
qed

text \<open>
  For every dataset that \<^verbatim>\<open>BuildStructures\<close> reads and every integer \<open>k\<close>, the pruning loop
  ends (\<open>prune\<close> is a total function) and the output is the line \<^verbatim>\<open>Actor\<close> followed by
  the names of the vertices whose final count is at least \<open>k\<close>, in rising order, each
  once.
\<close>

lemma popularityfinder_output:
  assumes "BuildStructures_pop tsv_file = Inr st"
  shows "\<exists>names. popularityfinder tsv_file k
                    = Inr (''Actor'' @ [newline] @ concat (map (\<lambda>s. s @ [newline]) names)) \<and>
                  sorted names \<and> distinct names \<and>
                  set names = (\<lambda>i. int_to_name st ! i)
                                ` set (survivors k (prune k (graph st) (counts st))) \<and>
                  set (survivors k (prune k (graph st) (counts st)))
                    \<subseteq> {..< length (int_to_name st)}"
proof -
  let ?n = "length (int_to_name st)" and ?g = "graph st"
  let ?c = "prune k ?g (counts st)"
  note ok = BuildStructures_pop_ok [OF assms]
  have lc: "length ?c = ?n"
    by (simp add: length_prune ok(3) length_row_sums)
  have sub: "set (survivors k ?c) \<subseteq> {..< ?n}"
    by (auto simp: survivors_def lc)
  let ?names = "map (\<lambda>i. int_to_name st ! i) (survivors k ?c)"
  have out: "popularityfinder tsv_file k
               = Inr (''Actor'' @ [newline] @ concat (map (\<lambda>s. s @ [newline]) (sort ?names)))"
    by (simp add: popularityfinder_def assms Let_def sort_by_less)
  have "distinct (int_to_name st)" using ok(2) by (simp add: registry_def)
  then have inj: "inj_on (\<lambda>i. int_to_name st ! i) {..< ?n}"
    by (auto simp: inj_on_def nth_eq_iff_index_eq)
  have "distinct (survivors k ?c)" by (simp add: survivors_def)
  moreover have "inj_on (\<lambda>i. int_to_name st ! i) (set (survivors k ?c))"
    using inj sub by (rule inj_on_subset)
  ultimately have "distinct ?names" by (simp add: distinct_map)
  then have "sorted (sort ?names) \<and> distinct (sort ?names) \<and>
             set (sort ?names) = (\<lambda>i. int_to_name st ! i) ` set (survivors k ?c)"
    by simp
  with out sub show ?thesis by blast
qed

text \<open>
  When the matrix has a zero diagonal, these vertices are the \<open>k\<close>-core: every one of them
  has at least \<open>k\<close> neighbours among the others, and every set of vertices with that
  property is contained in theirs.
\<close>

lemma popularityfinder_k_core:
  fixes st :: PopStructures and k :: int
  defines "core \<equiv> set (survivors k (prune k (graph st) (counts st)))"
  assumes "BuildStructures_pop tsv_file = Inr st"
    and "\<forall>i < length (graph st). graph st ! i ! i = 0"
  shows "k_closed (graph st) k core \<and>
         (\<forall>H. H \<subseteq> {..< length (int_to_name st)} \<and> k_closed (graph st) k H \<longrightarrow> H \<subseteq> core)"
proof -
  let ?n = "length (int_to_name st)" and ?g = "graph st"
  let ?c = "prune k ?g (counts st)"
  note ok = BuildStructures_pop_ok [OF assms(2)]
  from ok(1) have len: "length ?g = ?n" by (simp add: adjacency_def square_def)
  from ok(1) assms(3) have g: "no_loops ?n ?g" by (simp add: no_loops_def len)
  have "peeled ?n ?g k (counts st)"
    unfolding ok(3) using g by (rule peeled_row_sums)
  from peeled_prune [OF this g] have inv: "peeled ?n ?g k ?c"
    and stable: "\<And>i. i < ?n \<Longrightarrow> \<not> removable k ?c i"
    by simp_all
  from inv have lc: "length ?c = ?n" by (simp add: peeled_def)
  have core: "core = alive ?c"
  proof (intro set_eqI iffI)
    fix i assume "i \<in> core"
    then have i: "i < ?n" "k \<le> ?c ! i" by (simp_all add: core_def survivors_def lc)
    with inv show "i \<in> alive ?c" unfolding peeled_def by force
  next
    fix i assume "i \<in> alive ?c"
    then have i: "i < ?n" "- int ?n < ?c ! i" by (simp_all add: alive_def lc)
    with stable [OF i(1)] have "k \<le> ?c ! i" by (simp add: removable_def lc)
    with i(1) show "i \<in> core" by (simp add: core_def survivors_def lc)
  qed
  have sub: "core \<subseteq> {..< ?n}"
    unfolding core using alive_subset [of ?c] by (simp add: lc)
  have closed: "k_closed ?g k core"
    unfolding k_closed_def
  proof
    fix i assume i: "i \<in> core"
    then have "i \<in> alive ?c" "i < ?n" using core sub by auto
    with inv have "?c ! i = int (degree_in ?g (alive ?c) i)" by (simp add: peeled_def)
    moreover from i have "k \<le> ?c ! i" by (simp add: core_def survivors_def)
    ultimately show "k \<le> int (degree_in ?g core i)" by (simp add: core)
  qed
  have greatest: "\<forall>H. H \<subseteq> {..< ?n} \<and> k_closed ?g k H \<longrightarrow> H \<subseteq> core"
    using inv by (simp add: peeled_def core)
  with closed show ?thesis by blast
qed

section \<open>Concrete datasets\<close>

subsection \<open>Concrete inputs\<close>

text \<open>
  The total weight of a path written as \<^verbatim>\<open>findPath\<close> stacks it (actor, movie, actor, ...),
  in the words of the specification: every hop is a movie of the graph with both actors
  in its cast, and costs the weight of that movie. \<open>None\<close> is not a path.
\<close>

fun path_weight :: "ActorGraph \<Rightarrow> string list \<Rightarrow> int option" where
  "path_weight g (a # m # b # rest) =
     (case map_of (movie_map g) m of
        None \<Rightarrow> None
      | Some p \<Rightarrow>
          if a \<in> set (snd p) \<and> b \<in> set (snd p) \<and> a \<noteq> b
          then map_option (\<lambda>t. fst p + t) (path_weight g (b # rest)) else None)"
| "path_weight g [a] = (if map_of (actor_map g) a = None then None else Some 0)"
| "path_weight g _ = None"


subsection \<open>Malformed records\<close>







subsection \<open>Inputs on which the code departs from the claims\<close>

definition detour_tsv :: "string list" where
  "detour_tsv =
     [header,
      tsv_line [''S'', ''M1'', ''2014''], tsv_line [''R'', ''M1'', ''2014''],
      tsv_line [''S'', ''M2'', ''2012''], tsv_line [''W'', ''M2'', ''2012''],
      tsv_line [''S'', ''MX'', ''2013''], tsv_line [''X'', ''MX'', ''2013''],
      tsv_line [''S'', ''M3'', ''2017''], tsv_line [''U'', ''M3'', ''2017''],
      tsv_line [''U'', ''M4'', ''2018''], tsv_line [''W'', ''M4'', ''2018''],
      tsv_line [''W'', ''M5'', ''2018''], tsv_line [''R'', ''M5'', ''2018'']]"

definition detour_graph :: ActorGraph where
  "detour_graph =
     \<lparr>actor_map =
        [(''S'', [''M1#@2014'', ''M2#@2012'', ''MX#@2013'', ''M3#@2017'']),
         (''R'', [''M1#@2014'', ''M5#@2018'']),
         (''W'', [''M2#@2012'', ''M4#@2018'', ''M5#@2018'']),
         (''X'', [''MX#@2013'']),
         (''U'', [''M3#@2017'', ''M4#@2018''])],
      movie_map =
        [(''M1#@2014'', 5, [''S'', ''R'']), (''M2#@2012'', 7, [''S'', ''W'']),
         (''MX#@2013'', 6, [''S'', ''X'']), (''M3#@2017'', 2, [''S'', ''U'']),
         (''M4#@2018'', 1, [''U'', ''W'']), (''M5#@2018'', 1, [''W'', ''R''])],
      vertices =
        [(''S'', new_Vertex ''S''), (''R'', new_Vertex ''R''), (''W'', new_Vertex ''W''),
         (''X'', new_Vertex ''X''), (''U'', new_Vertex ''U'')]\<rparr>"

definition written :: "(error + string \<times> ActorGraph) option \<Rightarrow> (error + string) option" where
  "written r = map_option (map_sum id fst) r"

text \<open>
  Claim C1 fails on the code. \<^verbatim>\<open>findPath\<close> lowers the distance of a vertex that is already
  in the heap without restoring the heap order. In the weighted graph below (all weights
  positive) the vertex \<open>W\<close> sits below \<open>R\<close> in the heap with distance 7 when its distance
  drops to 3; the second entry pushed for \<open>W\<close> is compared with the first one, its parent,
  and stays under it. \<open>R\<close> is popped at distance 5 and its path of weight 5 is written,
  while the path through \<open>U\<close> and \<open>W\<close> has weight 4.
\<close>

theorem findPath_not_shortest:
  "loadFromFile detour_tsv True empty_graph = Inr (True, detour_graph) \<and>
   written (findPath detour_graph ''S'' ''R'') = Some (Inr ''(S)--[M1#@2014]-->(R)'') \<and>
   path_weight detour_graph [''S'', ''M1#@2014'', ''R''] = Some 5 \<and>
   path_weight detour_graph
     [''S'', ''M3#@2017'', ''U'', ''M4#@2018'', ''W'', ''M5#@2018'', ''R''] = Some 4"
  by code_simp

definition island_tsv :: "string list" where
  "island_tsv =
     [header, tsv_line [''A'', ''M'', ''2000''], tsv_line [''B'', ''M'', ''2000''],
      tsv_line [''C'', ''N'', ''2001'']]"

definition island_graph :: ActorGraph where
  "island_graph =
     \<lparr>actor_map = [(''A'', [''M#@2000'']), (''B'', [''M#@2000'']), (''C'', [''N#@2001''])],
      movie_map = [(''M#@2000'', 1, [''A'', ''B'']), (''N#@2001'', 1, [''C''])],
      vertices = [(''A'', new_Vertex ''A''), (''B'', new_Vertex ''B''), (''C'', new_Vertex ''C'')]\<rparr>"

text \<open>
  Claim C3 fails on the code. When the queue empties without having popped the
  destination, \<^verbatim>\<open>working\<close> is the vertex popped last, and the walk back starts there: the
  line written for the unreachable pair \<open>(A, C)\<close> is the chain from \<open>A\<close> to \<open>B\<close>.
\<close>

theorem findPath_unreachable:
  "loadFromFile island_tsv False empty_graph = Inr (True, island_graph) \<and>
   written (findPath island_graph ''A'' ''C'') = Some (Inr ''(A)--[M#@2000]-->(B)'')"
  by code_simp

definition scenario_tsv :: "string list" where
  "scenario_tsv =
     [header, tsv_line [''A'', ''M1'', ''2000''], tsv_line [''B'', ''M1'', ''2000''],
      tsv_line [''C'', ''M1'', ''2000''], tsv_line [''A'', ''M2'', ''2010''],
      tsv_line [''D'', ''M2'', ''2010'']]"

definition scenario_structures :: "string list \<Rightarrow> Structures" where
  "scenario_structures targets =
     \<lparr>name_to_int = [(''A'', 0), (''B'', 1), (''C'', 2), (''D'', 3)],
      int_to_name = [''A'', ''B'', ''C'', ''D''],
      actors = targets,
      graph = [[0, 1, 1, 1], [1, 0, 1, 0], [1, 1, 0, 0], [1, 0, 0, 0]]\<rparr>"

definition out_header :: string where
  "out_header = ''Actor1,Actor2,Actor3,Actor4'' @ [newline]"

text \<open>
  Claim C5 fails on the code. No program looks a queried name up before using it. In the
  predictor \<^verbatim>\<open>name_to_int[actor]\<close> gives an unknown target the id 0, and the line of the
  first actor of the dataset is written for it. In the path finder an unknown end name
  is never found and the chain to the vertex popped last is written; an unknown start
  name is a null pointer that is dereferenced.
\<close>

theorem unknown_actor_not_signalled:
  "BuildStructures scenario_tsv [''Actor'', ''Zed''] = Inr (scenario_structures [''Zed'']) \<and>
   map_sum id fst (FindInteractions True (scenario_structures [''Zed'']))
     = Inr (out_header @ ''B'' @ [tab] @ ''C'' @ [tab] @ [newline]) \<and>
   map_sum id fst (FindInteractions True (scenario_structures [''A'']))
     = Inr (out_header @ ''B'' @ [tab] @ ''C'' @ [tab] @ [newline]) \<and>
   written (findPath island_graph ''A'' ''Zed'') = Some (Inr ''(A)--[M#@2000]-->(B)'') \<and>
   written (findPath island_graph ''Zed'' ''A'') = Some (Inl NullPointer)"
  by code_simp

text \<open>
  Claim C9 fails on the code. The tab is left out only after the name at index 3: a line
  with fewer than four names ends in a tab.
\<close>

theorem trailing_tab_written:
  "BuildStructures scenario_tsv [''Actor'', ''A''] = Inr (scenario_structures [''A'']) \<and>
   map_sum id fst (FindInteractions True (scenario_structures [''A'']))
     = Inr (out_header @ ''B'' @ [tab] @ ''C'' @ [tab] @ [newline])"
  by code_simp

definition collision_tsv :: "string list" where
  "collision_tsv =
     [header, tsv_line [''A'', ''Movie1'', ''999''], tsv_line [''B'', ''Movie'', ''1999'']]"

text \<open>
  Claim C8 fails on the code. The predictor and the popularity finder key a movie by the
  title with the year appended, without a separator: \<open>Movie1\<close> of 999 and \<open>Movie\<close> of 1999
  are one movie to them and their casts are joined. \<^verbatim>\<open>loadFromFile\<close> puts \<^verbatim>\<open>#@\<close> in between
  and keeps the two apart.
\<close>

theorem movie_keys_collide:
  "BuildStructures collision_tsv [] =
     Inr \<lparr>name_to_int = [(''A'', 0), (''B'', 1)], int_to_name = [''A'', ''B''], actors = [],
          graph = [[0, 1], [1, 0]]\<rparr> \<and>
   BuildStructures_pop collision_tsv =
     Inr \<lparr>name_to_int = [(''A'', 0), (''B'', 1)], int_to_name = [''A'', ''B''], actors = [],
          graph = [[0, 1], [1, 0]], counts = [1, 1]\<rparr> \<and>
   map_sum id (\<lambda>r. movie_map (snd r)) (loadFromFile collision_tsv False empty_graph) =
     Inr [(''Movie1#@999'', 1, [''A'']), (''Movie#@1999'', 1, [''B''])]"
  by code_simp

subsection \<open>A later query of a run\<close>

definition island_after :: ActorGraph where
  "island_after =
     \<lparr>actor_map = [(''A'', [''M#@2000'']), (''B'', [''M#@2000'']), (''C'', [''N#@2001''])],
      movie_map = [(''M#@2000'', 1, [''A'', ''B'']), (''N#@2001'', 1, [''C''])],
      vertices =
        [(''A'', \<lparr>dist = 0, done_v = True, prev_actor = [], prev_movie = [], name = ''A''\<rparr>),
         (''B'', \<lparr>dist = 1, done_v = True, prev_actor = ''A'', prev_movie = ''M#@2000'',
                  name = ''B''\<rparr>),
         (''C'', \<lparr>dist = INT_MAX, done_v = False, prev_actor = [], prev_movie = [],
                  name = ''C''\<rparr>)]\<rparr>"

lemma load_island: "loadFromFile island_tsv False empty_graph = Inr (True, island_graph)"
  by code_simp

lemma island_first_query:
  "pairs_loop [tsv_line [''A'', ''C'']] (paths_header, island_graph) =
     Some (Inr (paths_header @ ''(A)--[M#@2000]-->(B)'' @ [newline], island_after))"
  by code_simp

theorem findPath_same_actor_witness:
  "loadFromFile island_tsv False empty_graph = Inr (True, island_graph) \<and>
   pairs_loop [tsv_line [''A'', ''C'']] (paths_header, island_graph) =
     Some (Inr (paths_header @ ''(A)--[M#@2000]-->(B)'' @ [newline], island_after)) \<and>
   map_of (vertices island_after) ''B'' =
     Some \<lparr>dist = 1, done_v = True, prev_actor = ''A'', prev_movie = ''M#@2000'', name = ''B''\<rparr> \<and>
   findPath island_after ''B'' ''B'' =
     Some (Inr (''(B)'',
       island_after\<lparr>vertices :=
         [(''A'', \<lparr>dist = INT_MAX, done_v = False, prev_actor = [], prev_movie = [], name = ''A''\<rparr>),
          (''B'', \<lparr>dist = 0, done_v = False, prev_actor = [], prev_movie = [], name = ''B''\<rparr>),
          (''C'', \<lparr>dist = INT_MAX, done_v = False, prev_actor = [], prev_movie = [],
                   name = ''C''\<rparr>)]\<rparr>))"
proof -
  have v: "map_of (vertices island_after) ''B'' =
     Some \<lparr>dist = 1, done_v = True, prev_actor = ''A'', prev_movie = ''M#@2000'', name = ''B''\<rparr>"
    by (simp add: island_after_def)
  show ?thesis
    using findPath_same_actor [OF load_island island_first_query v] load_island island_first_query v
    by (simp add: island_after_def reset_vertex_def new_Vertex_def)
qed

subsection \<open>The scenario of the specification\<close>

lemma scenario_built:
  "BuildStructures scenario_tsv (''Actor'' # targets) = Inr (scenario_structures targets)"
proof -
  have "BuildStructures scenario_tsv [] = Inr (scenario_structures [])"
    by code_simp
  then show ?thesis
    by (auto simp: BuildStructures_def scenario_structures_def split: sum.splits)
qed

lemma scenario_matrix:
  "graph (scenario_structures []) ! 0 ! 3 = graph (scenario_structures []) ! 3 ! 0 \<and>
   (\<exists>pst. BuildStructures_pop scenario_tsv = Inr pst \<and> graph pst = graph (scenario_structures []))"
proof -
  have "length (graph (scenario_structures [])) = 4"
    by (simp add: scenario_structures_def)
  with projected_matrix_symmetric [OF scenario_built [of "[]"]]
  show ?thesis by simp
qed

lemma scenario_lines:
  "\<exists>st'. FindInteractions False (scenario_structures [''A'', ''Zed'', ''D'']) =
     Inr (out_header @ [newline] @ [newline] @ ''B'' @ [tab] @ ''C'' @ [tab] @ [newline], st')"
proof -
  let ?st = "scenario_structures [''A'', ''Zed'', ''D'']"
  have diag: "\<forall>i < length (graph ?st). graph ?st ! i ! i = 0"
    by (simp add: scenario_structures_def eval_nat_numeral All_less_Suc)
  have ne: "int_to_name ?st \<noteq> []"
    by (simp add: scenario_structures_def)
  have lines: "concat (map (\<lambda>a. tabbed 0 (top_ranked (graph ?st) (int_to_name ?st) False
                                            (id_of (name_to_int ?st) a)) @ [newline]) (actors ?st))
                 = [newline] @ [newline] @ ''B'' @ [tab] @ ''C'' @ [tab] @ [newline]"
    by code_simp
  from FindInteractions_ranked [OF scenario_built diag ne, of False]
  show ?thesis
    unfolding lines by (auto simp: out_header_def)
qed

definition scenario_pop :: PopStructures where
  "scenario_pop =
     \<lparr>name_to_int = [(''A'', 0), (''B'', 1), (''C'', 2), (''D'', 3)],
      int_to_name = [''A'', ''B'', ''C'', ''D''],
      actors = [],
      graph = [[0, 1, 1, 1], [1, 0, 1, 0], [1, 1, 0, 0], [1, 0, 0, 0]],
      counts = [3, 2, 2, 1]\<rparr>"

lemma scenario_pop_built: "BuildStructures_pop scenario_tsv = Inr scenario_pop"
  by code_simp

lemma scenario_two_core:
  "popularityfinder scenario_tsv 2
     = Inr (''Actor'' @ [newline] @ ''A'' @ [newline] @ ''B'' @ [newline] @ ''C'' @ [newline]) \<and>
   k_closed (graph scenario_pop) 2
     (set (survivors 2 (prune 2 (graph scenario_pop) (counts scenario_pop))))"
proof -
  have diag: "\<forall>i < length (graph scenario_pop). graph scenario_pop ! i ! i = 0"
    by (simp add: scenario_pop_def eval_nat_numeral All_less_Suc)
  have out: "popularityfinder scenario_tsv 2
     = Inr (''Actor'' @ [newline] @ ''A'' @ [newline] @ ''B'' @ [newline] @ ''C'' @ [newline])"
    by code_simp
  from popularityfinder_k_core [OF scenario_pop_built diag, of 2] out
  show ?thesis by blast
qed

subsection \<open>A name repeated in a cast list\<close>

text \<open>
  \<^verbatim>\<open>BuildStructures\<close> appends the actor of every record to the cast list of the movie. The
  pair loop over a cast list starts \<^verbatim>\<open>j\<close> at \<^verbatim>\<open>i + 1\<close>, which keeps a position from being
  paired with itself, but not a name from being paired with its second occurrence:
  \<^verbatim>\<open>graph[a][a]\<close> is set to 1. The three programs behave as follows on such a dataset.
\<close>

definition repeated_tsv :: "string list" where
  "repeated_tsv = [header, tsv_line [''A'', ''M'', ''2000''], tsv_line [''A'', ''M'', ''2000'']]"

text \<open>
  Claim C6 fails on the code. For a dataset with the same record twice the matrix of the
  one actor is \<open>[[1]]\<close>: the diagonal entry is set.
\<close>

theorem repeated_actor_self_loop:
  "BuildStructures repeated_tsv [] =
     Inr \<lparr>name_to_int = [(''A'', 0)], int_to_name = [''A''], actors = [], graph = [[1]]\<rparr> \<and>
   map_sum id (\<lambda>st. graph st ! 0 ! 0) (BuildStructures repeated_tsv []) = Inr 1"
  by code_simp

text \<open>
  Claim C2 fails on the code. With the diagonal entry set, the row sum counts the actor
  as a neighbour of itself: the lone actor of the dataset has the count 1, survives the
  threshold 1 and is written, without any neighbour among the other survivors.
\<close>

theorem repeated_actor_survives:
  "BuildStructures_pop repeated_tsv =
     Inr \<lparr>name_to_int = [(''A'', 0)], int_to_name = [''A''], actors = [], graph = [[1]],
          counts = [1]\<rparr> \<and>
   popularityfinder repeated_tsv 1 = Inr (''Actor'' @ [newline] @ ''A'' @ [newline]) \<and>
   survivors 1 (prune 1 [[1]] [1]) = [0] \<and>
   degree_in [[1]] (set [0]) 0 = 0"
proof -
  have "{j \<in> set [0::nat]. j \<noteq> 0 \<and> [[1::int]] ! 0 ! j \<noteq> 0} = {}"
    by auto
  then have "degree_in [[1]] (set [0]) 0 = 0"
    by (simp only: degree_in_def card.empty)
  moreover have "BuildStructures_pop repeated_tsv =
     Inr \<lparr>name_to_int = [(''A'', 0)], int_to_name = [''A''], actors = [], graph = [[1]],
          counts = [1]\<rparr> \<and>
   popularityfinder repeated_tsv 1 = Inr (''Actor'' @ [newline] @ ''A'' @ [newline]) \<and>
   survivors 1 (prune 1 [[1]] [1]) = [0]"
    by code_simp
  ultimately show ?thesis by simp
qed

definition repeated_pair_tsv :: "string list" where
  "repeated_pair_tsv =
     [header, tsv_line [''A'', ''M'', ''2000''], tsv_line [''A'', ''M'', ''2000''],
      tsv_line [''B'', ''M'', ''2000'']]"

definition repeated_pair_structures :: Structures where
  "repeated_pair_structures =
     \<lparr>name_to_int = [(''A'', 0), (''B'', 1)], int_to_name = [''A'', ''B''], actors = [''A''],
      graph = [[1, 1], [1, 0]]\<rparr>"

text \<open>
  Claim C7 fails on the code. With the diagonal entry of \<open>A\<close> set, the sum over \<open>k\<close> of
  \<^verbatim>\<open>graph[B][k] & graph[A][k]\<close> counts \<open>A\<close> itself as an actor adjacent to both \<open>A\<close> and \<open>B\<close>.
  Of the two actors of the dataset below none is a third one, so \<open>B\<close> has no neighbour in
  common with \<open>A\<close> and the line of the target \<open>A\<close> should be blank in the predict mode;
  the code writes \<open>B\<close> on it.
\<close>

theorem self_loop_counted_as_mutual:
  "BuildStructures repeated_pair_tsv [''Actor'', ''A''] = Inr repeated_pair_structures \<and>
   map_sum id fst (FindInteractions True repeated_pair_structures)
     = Inr (out_header @ ''B'' @ [tab] @ [newline]) \<and>
   mutual (graph repeated_pair_structures) 0 1 = 0 \<and>
   top_ranked (graph repeated_pair_structures) (int_to_name repeated_pair_structures) True 0 = []"
  by code_simp

end
